theory Spec2Isabelle
  imports Main
begin

section \<open>JavaScript values and strings\<close>

text \<open>
  The model follows \<^verbatim>\<open>stats_log_consolidation/index.js\<close>. Strings are lists of
  8-bit characters; the keys returned by the store are URL-encoded
  (\<^verbatim>\<open>EncodingType: 'URL'\<close>) and therefore ASCII. A JavaScript value that may be
  \<^verbatim>\<open>undefined\<close>, a number or a string is a \<open>jsval\<close>.
\<close>

datatype jsval = Undefined | Num int | Str string

fun digits :: "nat \<Rightarrow> string" where
  "digits n = (if n < 10 then [char_of (48 + n)]
               else digits (n div 10) @ [char_of (48 + n mod 10)])"

declare digits.simps [simp del]

text \<open>String conversion as performed by template literals and by \<^verbatim>\<open>+\<close> on strings.\<close>

fun toString :: "jsval \<Rightarrow> string" where
  "toString Undefined = ''undefined''"
| "toString (Num i) = (if i < 0 then CHR ''-'' # digits (nat (- i)) else digits (nat i))"
| "toString (Str s) = s"

text \<open>Truthiness, as used by \<^verbatim>\<open>||\<close> and \<^verbatim>\<open>&&\<close>.\<close>

fun falsy :: "jsval \<Rightarrow> bool" where
  "falsy Undefined = True"
| "falsy (Num i) = (i = 0)"
| "falsy (Str s) = (s = [])"

definition js_or :: "jsval \<Rightarrow> jsval \<Rightarrow> jsval" where
  "js_or a b = (if falsy a then b else a)"

definition toUpperChar :: "char \<Rightarrow> char" where
  "toUpperChar c =
     (let n = of_char c :: nat in if 97 \<le> n \<and> n \<le> 122 then char_of (n - 32) else c)"

definition toLowerChar :: "char \<Rightarrow> char" where
  "toLowerChar c =
     (let n = of_char c :: nat in if 65 \<le> n \<and> n \<le> 90 then char_of (n + 32) else c)"

definition toLowerCase :: "string \<Rightarrow> string" where
  "toLowerCase s = map toLowerChar s"

definition startsWith :: "string \<Rightarrow> string \<Rightarrow> bool" where
  "startsWith s p = (take (length p) s = p)"

section \<open>Regular expressions\<close>

text \<open>
  The fragment of JavaScript regular expressions that \<^verbatim>\<open>nameRe\<close> uses, with the
  backtracking order of the language: a quantifier first tries to match its operand
  (greedy), then to skip it. A literal is compared case-insensitively (flag \<^verbatim>\<open>i\<close>),
  \<^verbatim>\<open>.\<close> matches anything but a line terminator, \<^verbatim>\<open>\d\<close> an ASCII digit. A matcher
  state is the rest of the input with the captures made so far.
\<close>

datatype regex =
    Eps
  | Lit char
  | Dot
  | Digit
  | Cat regex regex
  | Opt regex
  | Rep nat nat regex
  | Grp nat regex

type_synonym mstate = "string \<times> (nat \<times> string) list"

fun rsize :: "regex \<Rightarrow> nat" where
  "rsize (Cat a b) = Suc (rsize a + rsize b)"
| "rsize (Opt r) = Suc (rsize r)"
| "rsize (Rep m n r) = Suc (n + rsize r)"
| "rsize (Grp i r) = Suc (rsize r)"
| "rsize _ = 0"

function backtrack :: "regex \<Rightarrow> mstate \<Rightarrow> mstate list" where
  "backtrack Eps st = [st]"
| "backtrack (Lit c) (inp, caps) =
     (case inp of [] \<Rightarrow> []
      | x # xs \<Rightarrow> if toUpperChar x = toUpperChar c then [(xs, caps)] else [])"
| "backtrack Dot (inp, caps) =
     (case inp of [] \<Rightarrow> []
      | x # xs \<Rightarrow> if x \<noteq> CHR 0x0A \<and> x \<noteq> CHR 0x0D then [(xs, caps)] else [])"
| "backtrack Digit (inp, caps) =
     (case inp of [] \<Rightarrow> []
      | x # xs \<Rightarrow> if x \<in> set ''0123456789'' then [(xs, caps)] else [])"
| "backtrack (Cat a b) st = concat (map (backtrack b) (backtrack a st))"
| "backtrack (Opt r) st = backtrack r st @ [st]"
| "backtrack (Rep m 0 r) st = (if m = 0 then [st] else [])"
| "backtrack (Rep m (Suc n) r) st =
     concat (map (backtrack (Rep (m - 1) n r)) (backtrack r st)) @ (if m = 0 then [st] else [])"
| "backtrack (Grp i r) (inp, caps) =
     map (\<lambda>(rest, caps'). (rest, (i, take (length inp - length rest) inp) # caps'))
         (backtrack r (inp, caps))"
  by pat_completeness auto
termination
  by (relation "measure (\<lambda>(r, st). rsize r)") auto

definition seq :: "regex list \<Rightarrow> regex" where
  "seq rs = foldr Cat rs Eps"

definition lits :: "string \<Rightarrow> regex" where
  "lits s = seq (map Lit s)"

text \<open>
  \<^verbatim>\<open>exec\<close> on a pattern that starts with \<^verbatim>\<open>^\<close> (no \<^verbatim>\<open>m\<close> flag): a match can
  only start at index 0. The result is the array of the matched text and the captures
  1 to \<open>ngroups\<close>, \<^verbatim>\<open>undefined\<close> for a group that did not take part, or \<open>None\<close> for
  \<^verbatim>\<open>null\<close>.
\<close>

definition exec :: "regex \<Rightarrow> nat \<Rightarrow> string \<Rightarrow> jsval list option" where
  "exec re ngroups item =
     (case backtrack re (item, []) of
        [] \<Rightarrow> None
      | (rest, caps) # _ \<Rightarrow>
          Some (Str (take (length item - length rest) item) #
                map (\<lambda>i. case map_of caps i of None \<Rightarrow> Undefined | Some s \<Rightarrow> Str s)
                    [1 ..< Suc ngroups]))"

section \<open>The day partitioner\<close>

text \<open>\<^verbatim>\<open>/^log\/(tbcd....)\/((\d{4})(\d{2})(\d{2}))T(\d{6}(\.\d{3,6}))?Z?.log/i\<close>\<close>

definition nameRe :: regex where
  "nameRe = seq [lits ''log/'', Grp 1 (seq [lits ''tbcd'', Dot, Dot, Dot, Dot]), Lit CHR ''/'',
     Grp 2 (seq [Grp 3 (Rep 4 4 Digit), Grp 4 (Rep 2 2 Digit), Grp 5 (Rep 2 2 Digit)]),
     Lit CHR ''T'',
     Opt (Grp 6 (seq [Rep 6 6 Digit, Grp 7 (seq [Lit CHR ''.'', Rep 3 6 Digit])])),
     Opt (Lit CHR ''Z''), Dot, lits ''log'']"

definition nameRe_exec :: "string \<Rightarrow> jsval list option" where
  "nameRe_exec item = exec nameRe 7 item"

definition TBCDIX :: nat where "TBCDIX = 1"
definition DATEIX :: nat where "DATEIX = 2"
definition YEARIX :: nat where "YEARIX = 3"
definition MONTHIX :: nat where "MONTHIX = 4"
definition DAYIX :: nat where "DAYIX = 5"
definition MINLENGTH :: nat where "MINLENGTH = 7"

record dailyLogInfo =
  year :: jsval
  month :: jsval
  day :: jsval
  logKeys :: "string list"
  tb :: jsval
  key :: string
  log :: jsval
  priorLog :: jsval

text \<open>
  The state of the \<^verbatim>\<open>forEach\<close> loop: \<^verbatim>\<open>listOfDailyLogInfo\<close>, \<^verbatim>\<open>dailyLogInfo\<close>
  (\<open>None\<close> while it is \<^verbatim>\<open>undefined\<close>) and \<^verbatim>\<open>currentDate\<close>.
\<close>

type_synonym pstate = "dailyLogInfo list \<times> dailyLogInfo option \<times> jsval"

definition closeDay :: "dailyLogInfo list \<Rightarrow> dailyLogInfo option \<Rightarrow> dailyLogInfo list" where
  "closeDay listOfDailyLogInfo dailyLogInfo =
     (case dailyLogInfo of None \<Rightarrow> listOfDailyLogInfo | Some d \<Rightarrow> listOfDailyLogInfo @ [d])"

definition newDay :: "jsval list \<Rightarrow> dailyLogInfo" where
  "newDay parse =
     \<lparr> year = parse ! YEARIX, month = parse ! MONTHIX, day = parse ! DAYIX, logKeys = [],
       tb = parse ! TBCDIX,
       key = ''log/'' @ toString (parse ! YEARIX) @ ''/'' @ toString (parse ! MONTHIX) @ ''/'' @
             toString (parse ! TBCDIX) @ ''-'' @ toString (parse ! DAYIX) @ ''.log'',
       log = Undefined, priorLog = Undefined \<rparr>"

text \<open>
  \<^verbatim>\<open>dailyLogInfo.logKeys.push(item)\<close>. The loop gets there with \<^verbatim>\<open>dailyLogInfo\<close>
  defined: the first key that matches finds \<^verbatim>\<open>currentDate\<close> at \<open>-1\<close> and opens a day.
\<close>

definition pushKey :: "string \<Rightarrow> dailyLogInfo option \<Rightarrow> dailyLogInfo option" where
  "pushKey item dailyLogInfo = map_option (\<lambda>d. d\<lparr>logKeys := logKeys d @ [item]\<rparr>) dailyLogInfo"

fun forEachItem :: "string \<Rightarrow> pstate \<Rightarrow> pstate" where
  "forEachItem item (listOfDailyLogInfo, dailyLogInfo, currentDate) =
     (case nameRe_exec item of
        None \<Rightarrow> (listOfDailyLogInfo, dailyLogInfo, currentDate)
      | Some parse \<Rightarrow>
          if length parse \<ge> MINLENGTH then
            (if currentDate \<noteq> parse ! DATEIX
             then (closeDay listOfDailyLogInfo dailyLogInfo,
                   pushKey item (Some (newDay parse)), parse ! DATEIX)
             else (listOfDailyLogInfo, pushKey item dailyLogInfo, currentDate))
          else (listOfDailyLogInfo, dailyLogInfo, currentDate))"

definition partitionByDays :: "string list \<Rightarrow> dailyLogInfo list" where
  "partitionByDays listOfLogs =
     (case fold forEachItem listOfLogs ([], None, Num (- 1)) of
        (listOfDailyLogInfo, dailyLogInfo, currentDate) \<Rightarrow>
          closeDay listOfDailyLogInfo dailyLogInfo)"

section \<open>The object store\<close>

datatype error = Error (code: string)

text \<open>
  What \<^verbatim>\<open>data.Body.toString('ascii')\<close> yields for a stored object: the text, or an
  exception, given by its \<^verbatim>\<open>toString()\<close>.
\<close>

datatype body = Ascii string | Throws string

datatype request =
    ListObjectsV2 string
  | GetObject string
  | PutObject string string
  | DeleteObjects "string list"

record listObjectsV2Output =
  CommonPrefixes :: "string list"
  Contents :: "string list"

text \<open>
  The store is not part of the program. Its state holds the answer to each listing
  (whatever the store answers for a prefix: the program lists each prefix once), the
  objects, the requests that fail (by the number of requests issued before, and the
  request) and the log of the requests issued, all to the one bucket \<^verbatim>\<open>BUCKET\<close>. A
  request that fails changes nothing but the log. A fetch of an absent key fails with
  the code \<^verbatim>\<open>NoSuchKey\<close>; a write replaces the object by the text written, which is
  ASCII and reads back as it was written; a batch delete removes the keys it names, and
  a batch delete that names no key is refused with the code \<^verbatim>\<open>MalformedXML\<close>, as the
  store does for a request without an object.
  Every promise of the program is run to its end before the next one starts, so a
  promise is a function from the state of the store to its outcome, an error or a
  value, and the next state.
\<close>

record s3 =
  listing :: "string \<Rightarrow> listObjectsV2Output"
  objects :: "string \<rightharpoonup> body"
  faults :: "nat \<Rightarrow> request \<Rightarrow> error option"
  requests :: "request list"

type_synonym 'a promise = "s3 \<Rightarrow> (error + 'a) \<times> s3"

definition resolve :: "'a \<Rightarrow> 'a promise" where
  "resolve a s = (Inr a, s)"

definition reject :: "error \<Rightarrow> 'a promise" where
  "reject e s = (Inl e, s)"

definition andThen :: "'a promise \<Rightarrow> ('a \<Rightarrow> 'b promise) \<Rightarrow> 'b promise" where
  "andThen p f s = (case p s of (Inl e, s') \<Rightarrow> (Inl e, s') | (Inr a, s') \<Rightarrow> f a s')"

definition catch :: "'a promise \<Rightarrow> (error \<Rightarrow> 'a promise) \<Rightarrow> 'a promise" where
  "catch p h s = (case p s of (Inl e, s') \<Rightarrow> h e s' | (Inr a, s') \<Rightarrow> (Inr a, s'))"

definition send :: "request \<Rightarrow> 'a promise \<Rightarrow> 'a promise" where
  "send r respond s =
     (let s' = s\<lparr>requests := requests s @ [r]\<rparr>
      in case faults s (length (requests s)) r of
           Some e \<Rightarrow> reject e s'
         | None \<Rightarrow> respond s')"

definition s3_listObjectsV2 :: "string \<Rightarrow> listObjectsV2Output promise" where
  "s3_listObjectsV2 prefix = send (ListObjectsV2 prefix) (\<lambda>s. resolve (listing s prefix) s)"

definition s3_getObject :: "string \<Rightarrow> body promise" where
  "s3_getObject k =
     send (GetObject k)
       (\<lambda>s. case objects s k of None \<Rightarrow> reject (Error ''NoSuchKey'') s | Some b \<Rightarrow> resolve b s)"

definition s3_putObject :: "string \<Rightarrow> string \<Rightarrow> unit promise" where
  "s3_putObject k b =
     send (PutObject k b) (\<lambda>s. resolve () (s\<lparr>objects := (objects s)(k \<mapsto> Ascii b)\<rparr>))"

definition s3_deleteObjects :: "string list \<Rightarrow> unit promise" where
  "s3_deleteObjects ks =
     send (DeleteObjects ks)
       (\<lambda>s. if ks = [] then reject (Error ''MalformedXML'') s
            else resolve () (s\<lparr>objects := (\<lambda>k. if k \<in> set ks then None else objects s k)\<rparr>))"

section \<open>The sequential runner\<close>

function processOne ::
  "('a \<Rightarrow> 'b promise) \<Rightarrow> 'a list \<Rightarrow> nat \<Rightarrow> 'b list \<Rightarrow> 'b list promise" where
  "processOne fn list ix resultlist s =
     (if ix \<ge> length list then resolve resultlist s
      else case fn (list ! ix) s of
             (Inr data, s') \<Rightarrow> processOne fn list (ix + 1) (resultlist @ [data]) s'
           | (Inl err, s') \<Rightarrow> reject err s')"
  by pat_completeness auto
termination
  by (relation "measure (\<lambda>(fn, list, ix, resultlist, s). length list - ix)") auto

declare processOne.simps [simp del]

definition walkListWithPromises :: "'a list \<Rightarrow> ('a \<Rightarrow> 'b promise) \<Rightarrow> 'b list promise" where
  "walkListWithPromises list fn = processOne fn list 0 []"

section \<open>The pipeline\<close>

definition getTbLoaderList :: "string list promise" where
  "getTbLoaderList =
     andThen (s3_listObjectsV2 ''log/'')
       (\<lambda>data. resolve (filter (\<lambda>item. startsWith (toLowerCase item) ''log/tbcd'')
                                (CommonPrefixes data)))"

definition getLogFileList :: "string \<Rightarrow> string list promise" where
  "getLogFileList tbcd = andThen (s3_listObjectsV2 tbcd) (\<lambda>data. resolve (Contents data))"

text \<open>The body of the \<^verbatim>\<open>then\<close> callback of \<^verbatim>\<open>readFile\<close>, with its \<^verbatim>\<open>try\<close> and \<^verbatim>\<open>catch\<close>.\<close>

definition decodeLog :: "string \<Rightarrow> body \<Rightarrow> string" where
  "decodeLog k data =
     (case data of
        Ascii logData \<Rightarrow>
          if logData \<noteq> [] \<and> last logData \<noteq> CHR 0x0A then logData @ [CHR 0x0A]
          else logData
      | Throws ex \<Rightarrow> ''Exception reading log ('' @ k @ ''): '' @ ex @ [CHR 0x0A])"

definition readFile :: "string \<Rightarrow> string promise" where
  "readFile k = andThen (s3_getObject k) (\<lambda>data. resolve (decodeLog k data))"

definition readLogsForDay :: "dailyLogInfo \<Rightarrow> dailyLogInfo promise" where
  "readLogsForDay dailyLogInfo =
     andThen (walkListWithPromises (logKeys dailyLogInfo) readFile)
       (\<lambda>logData. resolve (dailyLogInfo\<lparr>log := Str (concat logData)\<rparr>))"

definition readPriorConsolidation :: "dailyLogInfo \<Rightarrow> dailyLogInfo promise" where
  "readPriorConsolidation dailyLogInfo =
     catch (andThen (readFile (key dailyLogInfo))
              (\<lambda>data. resolve (dailyLogInfo\<lparr>priorLog := Str data\<rparr>)))
       (\<lambda>err. if code err = ''NoSuchKey'' then resolve (dailyLogInfo\<lparr>priorLog := Str ''''\<rparr>)
              else reject err)"

definition writeConsolidatedLog :: "dailyLogInfo \<Rightarrow> dailyLogInfo promise" where
  "writeConsolidatedLog dailyLogInfo =
     (let body = toString (js_or (priorLog dailyLogInfo) (Str '''')) @ toString (log dailyLogInfo)
      in andThen (s3_putObject (key dailyLogInfo) body) (\<lambda>result. resolve dailyLogInfo))"

definition consolidateDailyLog :: "dailyLogInfo \<Rightarrow> dailyLogInfo promise" where
  "consolidateDailyLog dailyLogInfo =
     andThen (andThen (readLogsForDay dailyLogInfo) readPriorConsolidation) writeConsolidatedLog"

definition consolidateDailyLogs :: "dailyLogInfo list \<Rightarrow> dailyLogInfo list promise" where
  "consolidateDailyLogs listOfDailyLogInfo =
     walkListWithPromises listOfDailyLogInfo consolidateDailyLog"

definition removeLogItems :: "string list \<Rightarrow> int promise" where
  "removeLogItems list = andThen (s3_deleteObjects list) (\<lambda>_. resolve 0)"

definition processTbLoader :: "string \<Rightarrow> int promise" where
  "processTbLoader tbcd =
     andThen (getLogFileList tbcd)
       (\<lambda>keysToRemove.
          andThen (andThen (resolve (partitionByDays keysToRemove)) consolidateDailyLogs)
            (\<lambda>result. removeLogItems keysToRemove))"

definition processTbLoaderList :: "string list \<Rightarrow> int list promise" where
  "processTbLoaderList list = walkListWithPromises list processTbLoader"

text \<open>The handler's outcome is the pair of arguments it passes to \<^verbatim>\<open>callback\<close>.\<close>

definition handler :: "s3 \<Rightarrow> (error option \<times> int list option) \<times> s3" where
  "handler s =
     (case andThen getTbLoaderList processTbLoaderList s of
        (Inr result, s') \<Rightarrow> ((None, Some result), s')
      | (Inl err, s') \<Rightarrow> ((Some err, None), s'))"

section \<open>Notions used in the statements\<close>

text \<open>The test of the partitioner on a key, and the captures of a key that passes it.\<close>

definition matchesName :: "string \<Rightarrow> bool" where
  "matchesName item =
     (case nameRe_exec item of None \<Rightarrow> False | Some parse \<Rightarrow> length parse \<ge> MINLENGTH)"

definition capture :: "nat \<Rightarrow> string \<Rightarrow> jsval" where
  "capture i item = (case nameRe_exec item of None \<Rightarrow> Undefined | Some parse \<Rightarrow> parse ! i)"

text \<open>The key lists of the delete requests and the writes among the requests issued.\<close>

definition deleteRequests :: "request list \<Rightarrow> string list list" where
  "deleteRequests rs = concat (map (\<lambda>r. case r of DeleteObjects ks \<Rightarrow> [ks] | _ \<Rightarrow> []) rs)"

definition putRequests :: "request list \<Rightarrow> (string \<times> string) list" where
  "putRequests rs = concat (map (\<lambda>r. case r of PutObject k b \<Rightarrow> [(k, b)] | _ \<Rightarrow> []) rs)"

text \<open>
  What the reader yields for a key when its fetch succeeds (nothing for an absent key), and
  a store in which no request fails.
\<close>

definition fragmentText :: "s3 \<Rightarrow> string \<Rightarrow> string" where
  "fragmentText s k = (case objects s k of None \<Rightarrow> [] | Some b \<Rightarrow> decodeLog k b)"

definition noFaults :: "s3 \<Rightarrow> bool" where
  "noFaults s = (\<forall>n r. faults s n r = None)"

text \<open>
  The prior content as the merger reads it, after the reads of the day's fragments: empty
  when the fetch fails (the merge goes on only for \<^verbatim>\<open>NoSuchKey\<close>).
\<close>

definition priorText :: "s3 \<Rightarrow> dailyLogInfo \<Rightarrow> string" where
  "priorText s d =
     (case faults s (length (requests s) + length (logKeys d)) (GetObject (key d)) of
        Some e \<Rightarrow> []
      | None \<Rightarrow> fragmentText s (key d))"

text \<open>
  The invariant of the loop of the partitioner after the keys \<open>ks\<close>: the groups closed so
  far and the open one hold the keys that passed the test, run after run of one date;
  \<^verbatim>\<open>dailyLogInfo\<close> is defined as soon as \<^verbatim>\<open>currentDate\<close> is a date; every group has the
  fields made from the captures of its first key.
\<close>

definition partitionInv :: "string list \<Rightarrow> pstate \<Rightarrow> bool" where
  "partitionInv ks st =
     (case st of (listOfDailyLogInfo, dailyLogInfo, currentDate) \<Rightarrow>
        concat (map logKeys (closeDay listOfDailyLogInfo dailyLogInfo)) = filter matchesName ks \<and>
        map (\<lambda>g. remdups_adj (map (capture DATEIX) (logKeys g)))
            (closeDay listOfDailyLogInfo dailyLogInfo) =
          map (\<lambda>d. [d]) (remdups_adj (map (capture DATEIX) (filter matchesName ks))) \<and>
        (case dailyLogInfo of
           None \<Rightarrow> currentDate = Num (- 1) \<and> listOfDailyLogInfo = []
         | Some d \<Rightarrow> logKeys d \<noteq> [] \<and> currentDate = capture DATEIX (last (logKeys d))) \<and>
        list_all (\<lambda>g. case logKeys g of
                         [] \<Rightarrow> False
                       | k # rest \<Rightarrow>
                           (case nameRe_exec k of
                              None \<Rightarrow> False
                            | Some parse \<Rightarrow> g = (newDay parse)\<lparr>logKeys := k # rest\<rparr>))
                 (closeDay listOfDailyLogInfo dailyLogInfo))"




section \<open>Example keys and stores\<close>

definition keyA :: string where
  "keyA = ''log/tbcd1234/20210730T131711.123Z.log''"

definition keyB :: string where
  "keyB = ''log/tbcd1234/20210730T140000Z.log''"

definition keyB3 :: string where
  "keyB3 = ''log/tbcd1234/20210730T140000.000Z.log''"

definition keyC :: string where
  "keyC = ''log/tbcd1234/20210731T080000.000Z.log''"

definition keyGone :: string where
  "keyGone = ''log/tbcd1234/20210730T150000.000Z.log''"


definition keyNotes :: string where
  "keyNotes = ''log/tbcd1234/notes.txt''"

definition sourceKey :: string where
  "sourceKey = ''log/tbcd1234/''"

definition dayKey :: string where
  "dayKey = ''log/2021/07/tbcd1234-30.log''"

definition dayKey31 :: string where
  "dayKey31 = ''log/2021/07/tbcd1234-31.log''"

text \<open>The groups that the partitioner makes of these keys.\<close>

definition day30 :: dailyLogInfo where
  "day30 = \<lparr> year = Str ''2021'', month = Str ''07'', day = Str ''30'', logKeys = [keyA, keyB3],
     tb = Str ''tbcd1234'', key = dayKey, log = Undefined, priorLog = Undefined \<rparr>"

definition day30A :: dailyLogInfo where
  "day30A = \<lparr> year = Str ''2021'', month = Str ''07'', day = Str ''30'', logKeys = [keyA],
     tb = Str ''tbcd1234'', key = dayKey, log = Undefined, priorLog = Undefined \<rparr>"

definition day31 :: dailyLogInfo where
  "day31 = \<lparr> year = Str ''2021'', month = Str ''07'', day = Str ''31'', logKeys = [keyC],
     tb = Str ''tbcd1234'', key = dayKey31, log = Undefined, priorLog = Undefined \<rparr>"

text \<open>A store in which no request fails and nothing has been requested yet.\<close>

definition store :: "(string \<Rightarrow> listObjectsV2Output) \<Rightarrow> (string \<rightharpoonup> body) \<Rightarrow> s3" where
  "store l m = \<lparr> listing = l, objects = m, faults = (\<lambda>n r. None), requests = [] \<rparr>"

definition noListing :: "string \<Rightarrow> listObjectsV2Output" where
  "noListing p = \<lparr>CommonPrefixes = [], Contents = []\<rparr>"

text \<open>The listings of a store with the one source \<^verbatim>\<open>log/tbcd1234/\<close> and the given keys under it.\<close>

definition listingOf :: "string list \<Rightarrow> string \<Rightarrow> listObjectsV2Output" where
  "listingOf files p =
     (if p = ''log/'' then \<lparr>CommonPrefixes = [sourceKey], Contents = []\<rparr>
      else if p = sourceKey then \<lparr>CommonPrefixes = [], Contents = files\<rparr>
      else \<lparr>CommonPrefixes = [], Contents = []\<rparr>)"

text \<open>A store in which every write to the key \<open>k\<close> fails and no other request does.\<close>

definition failPut :: "string \<Rightarrow> nat \<Rightarrow> request \<Rightarrow> error option" where
  "failPut k n r =
     (case r of PutObject k' b \<Rightarrow> if k' = k then Some (Error ''SlowDown'') else None
      | _ \<Rightarrow> None)"

definition storeFailingPut :: "string list \<Rightarrow> (string \<rightharpoonup> body) \<Rightarrow> string \<Rightarrow> s3" where
  "storeFailingPut files m k =
     \<lparr> listing = listingOf files, objects = m, faults = failPut k, requests = [] \<rparr>"

text \<open>
  The store that the run of the source leaves when the write of the second day has
  failed, with the failure gone: the state in which the next run starts.
\<close>

definition afterFailedWrite :: s3 where
  "afterFailedWrite =
     (snd (processTbLoader sourceKey
        (storeFailingPut [keyA, keyC] [keyA \<mapsto> Ascii ''hello'', keyC \<mapsto> Ascii ''later''] dayKey31)))
     \<lparr>faults := (\<lambda>n r. None)\<rparr>"






section \<open>The requests of a fetch\<close>

text \<open>A fetch and the reader, request by request.\<close>

lemma getObject_unfold:
  "s3_getObject k s =
     (case faults s (length (requests s)) (GetObject k) of
        Some e \<Rightarrow> (Inl e, s\<lparr>requests := requests s @ [GetObject k]\<rparr>)
      | None \<Rightarrow>
          (case objects s k of
             None \<Rightarrow> (Inl (Error ''NoSuchKey''), s\<lparr>requests := requests s @ [GetObject k]\<rparr>)
           | Some b \<Rightarrow> (Inr b, s\<lparr>requests := requests s @ [GetObject k]\<rparr>)))"
  by (simp add: s3_getObject_def send_def resolve_def reject_def split: option.splits)

lemma readFile_unfold:
  "readFile k s =
     (case faults s (length (requests s)) (GetObject k) of
        Some e \<Rightarrow> (Inl e, s\<lparr>requests := requests s @ [GetObject k]\<rparr>)
      | None \<Rightarrow>
          (case objects s k of
             None \<Rightarrow> (Inl (Error ''NoSuchKey''), s\<lparr>requests := requests s @ [GetObject k]\<rparr>)
           | Some b \<Rightarrow> (Inr (decodeLog k b), s\<lparr>requests := requests s @ [GetObject k]\<rparr>)))"
  by (simp add: readFile_def andThen_def s3_getObject_def send_def resolve_def reject_def
      split: option.splits)

section \<open>The sequential runner processes in order and stops at the first failure\<close>

lemma processOne_shift:
  "processOne fn (x # xs) (Suc ix) acc s = processOne fn xs ix acc s"
proof (induction fn xs ix acc s rule: processOne.induct)
  case (1 fn list ix resultlist s)
  show ?case
  proof (cases "ix \<ge> length list")
    case True
    then show ?thesis by (simp add: processOne.simps)
  next
    case False
    show ?thesis
    proof (cases "fn (list ! ix) s")
      case (Pair r s')
      show ?thesis
      proof (cases r)
        case (Inl e)
        with Pair False show ?thesis
          by (simp add: processOne.simps [of fn "x # list"] processOne.simps [of fn list ix])
      next
        case (Inr d)
        with Pair False "1.IH" show ?thesis
          by (simp add: processOne.simps [of fn "x # list" "Suc ix"] processOne.simps [of fn list ix])
      qed
    qed
  qed
qed

lemma processOne_acc:
  "processOne fn list ix (a # acc) s =
     (case processOne fn list ix acc s of
        (Inl e, s') \<Rightarrow> (Inl e, s')
      | (Inr rs, s') \<Rightarrow> (Inr (a # rs), s'))"
proof (induction fn list ix acc s rule: processOne.induct)
  case (1 fn list ix resultlist s)
  show ?case
  proof (cases "ix \<ge> length list")
    case True
    then show ?thesis by (simp add: processOne.simps resolve_def)
  next
    case False
    show ?thesis
    proof (cases "fn (list ! ix) s")
      case (Pair r s')
      show ?thesis
      proof (cases r)
        case (Inl e)
        with Pair False show ?thesis
          by (simp add: processOne.simps [of fn list ix] reject_def)
      next
        case (Inr d)
        with Pair False "1.IH" show ?thesis
          by (simp add: processOne.simps [of fn list ix])
      qed
    qed
  qed
qed

lemma walk_Nil: "walkListWithPromises [] fn s = (Inr [], s)"
  by (simp add: walkListWithPromises_def processOne.simps resolve_def)

lemma walk_Cons:
  "walkListWithPromises (x # xs) fn s =
     (case fn x s of
        (Inl e, s') \<Rightarrow> (Inl e, s')
      | (Inr d, s') \<Rightarrow>
          (case walkListWithPromises xs fn s' of
             (Inl e, s'') \<Rightarrow> (Inl e, s'')
           | (Inr ds, s'') \<Rightarrow> (Inr (d # ds), s'')))"
proof (cases "fn x s")
  case (Pair r s')
  show ?thesis
  proof (cases r)
    case (Inl e)
    with Pair show ?thesis
      by (simp add: walkListWithPromises_def processOne.simps [of fn "x # xs" 0] reject_def)
  next
    case (Inr d)
    have "processOne fn (x # xs) 0 [] s = processOne fn (x # xs) (Suc 0) [d] s'"
      using Pair Inr by (simp add: processOne.simps [of fn "x # xs" 0])
    also have "\<dots> = processOne fn xs 0 [d] s'"
      by (rule processOne_shift)
    finally show ?thesis
      using Pair Inr by (simp add: walkListWithPromises_def processOne_acc [of fn xs 0 d "[]"])
  qed
qed

lemma walk_append:
  "walkListWithPromises (xs @ ys) fn s =
     (case walkListWithPromises xs fn s of
        (Inl e, s') \<Rightarrow> (Inl e, s')
      | (Inr ds, s') \<Rightarrow>
          (case walkListWithPromises ys fn s' of
             (Inl e, s'') \<Rightarrow> (Inl e, s'')
           | (Inr es, s'') \<Rightarrow> (Inr (ds @ es), s'')))"
proof (induction xs arbitrary: s)
  case Nil
  show ?case by (simp add: walk_Nil split: prod.splits sum.splits)
next
  case (Cons x xs)
  show ?case
    by (simp add: walk_Cons Cons.IH split: prod.splits sum.splits)
qed

text \<open>
  Claim C8, as amended. The runner on the empty list resolves with the empty list and
  leaves the store as it is. On a list with a first unit it runs that unit in the
  current state; when the unit fails it rejects with the unit's error, alone, in the
  state the unit left, and runs nothing else; when the unit succeeds it runs the rest of
  the list in the state the unit left and puts the unit's result in front of theirs.
  So the units are processed one at a time in list order, each in the state that the
  units before it left; a list whose units all succeed gives their results in order;
  and when a unit fails after others have completed, the outcome is that unit's error
  in the state it left, whatever follows in the list: the effects of the completed units
  stay in the store and the list of their results is not part of the outcome.
\<close>

theorem runner_in_order_fail_fast:
  "walkListWithPromises [] fn s = (Inr [], s) \<and>
   walkListWithPromises (x # xs) fn s =
     (case fn x s of
        (Inl e, s') \<Rightarrow> (Inl e, s')
      | (Inr d, s') \<Rightarrow>
          (case walkListWithPromises xs fn s' of
             (Inl e, s'') \<Rightarrow> (Inl e, s'')
           | (Inr ds, s'') \<Rightarrow> (Inr (d # ds), s''))) \<and>
   (walkListWithPromises done fn s = (Inr results, s1) \<and> fn x s1 = (Inr r, s2)
      \<longrightarrow> walkListWithPromises (done @ [x]) fn s = (Inr (results @ [r]), s2)) \<and>
   (walkListWithPromises done fn s = (Inr results, s1) \<and> fn x s1 = (Inl err, s2)
      \<longrightarrow> walkListWithPromises (done @ x # rest) fn s = (Inl err, s2) \<and>
          (\<forall>rs. fst (walkListWithPromises (done @ x # rest) fn s) \<noteq> Inr rs))"
proof (intro conjI impI)
  show "walkListWithPromises [] fn s = (Inr [], s)" by (rule walk_Nil)
  show "walkListWithPromises (x # xs) fn s =
     (case fn x s of
        (Inl e, s') \<Rightarrow> (Inl e, s')
      | (Inr d, s') \<Rightarrow>
          (case walkListWithPromises xs fn s' of
             (Inl e, s'') \<Rightarrow> (Inl e, s'')
           | (Inr ds, s'') \<Rightarrow> (Inr (d # ds), s'')))"
    by (rule walk_Cons)
next
  assume "walkListWithPromises done fn s = (Inr results, s1) \<and> fn x s1 = (Inr r, s2)"
  then show "walkListWithPromises (done @ [x]) fn s = (Inr (results @ [r]), s2)"
    by (simp add: walk_append walk_Cons walk_Nil)
next
  assume h: "walkListWithPromises done fn s = (Inr results, s1) \<and> fn x s1 = (Inl err, s2)"
  then show f: "walkListWithPromises (done @ x # rest) fn s = (Inl err, s2)"
    by (simp add: walk_append walk_Cons)
  show "\<forall>rs. fst (walkListWithPromises (done @ x # rest) fn s) \<noteq> Inr rs"
    unfolding f by simp
qed

theorem runner_in_order_fail_fast_witness:
  "walkListWithPromises [keyA, keyGone, keyC] readFile
     (store noListing [keyA \<mapsto> Ascii ''hello'', keyC \<mapsto> Ascii ''later''])
   = (Inl (Error ''NoSuchKey''),
      (store noListing [keyA \<mapsto> Ascii ''hello'', keyC \<mapsto> Ascii ''later''])
        \<lparr>requests := [GetObject keyA, GetObject keyGone]\<rparr>)"
proof -
  let ?s = "store noListing [keyA \<mapsto> Ascii ''hello'', keyC \<mapsto> Ascii ''later'']"
  let ?s1 = "?s\<lparr>requests := [GetObject keyA]\<rparr>"
  note t = runner_in_order_fail_fast
  have r: "readFile keyA ?s = (Inr (''hello'' @ [CHR 0x0A]), ?s1)"
    by (simp add: readFile_unfold store_def decodeLog_def keyA_def keyC_def)
  have n: "walkListWithPromises [] readFile ?s1 = (Inr [], ?s1)"
    by (rule t [THEN conjunct1])
  have a: "walkListWithPromises [keyA] readFile ?s = (Inr [''hello'' @ [CHR 0x0A]], ?s1)"
    using t [THEN conjunct2, THEN conjunct1, of keyA "[]" readFile ?s] r n by simp
  have b: "readFile keyGone ?s1 =
             (Inl (Error ''NoSuchKey''), ?s\<lparr>requests := [GetObject keyA, GetObject keyGone]\<rparr>)"
    by (simp add: readFile_unfold store_def keyA_def keyC_def keyGone_def)
  from a b t [THEN conjunct2, THEN conjunct2, THEN conjunct2,
      of "[keyA]" readFile ?s _ _ keyGone "Error ''NoSuchKey''" _ "[keyC]"]
  show ?thesis by simp
qed

text \<open>
  The reader completes the first key with its text and fails on the second: the outcome
  of the runner is the error, and the text of the first key is not in it.
\<close>

theorem completed_results_dropped_counterexample:
  "fst (walkListWithPromises [keyA] readFile
          (store noListing [keyA \<mapsto> Ascii ''hello'', keyC \<mapsto> Ascii ''later'']))
     = Inr [''hello'' @ [CHR 0x0A]] \<and>
   fst (walkListWithPromises [keyA, keyGone, keyC] readFile
          (store noListing [keyA \<mapsto> Ascii ''hello'', keyC \<mapsto> Ascii ''later'']))
     = Inl (Error ''NoSuchKey'') \<and>
   requests (snd (walkListWithPromises [keyA, keyGone, keyC] readFile
          (store noListing [keyA \<mapsto> Ascii ''hello'', keyC \<mapsto> Ascii ''later''])))
     = [GetObject keyA, GetObject keyGone]"
  by code_simp

section \<open>The fragment reader and the log of a day\<close>

lemma fragmentText_requests [simp]:
  "fragmentText (s\<lparr>requests := rs\<rparr>) = fragmentText s"
  by (rule ext) (simp add: fragmentText_def)

lemma readFile_Inr:
  "readFile k s = (Inr t, s') \<Longrightarrow>
     s' = s\<lparr>requests := requests s @ [GetObject k]\<rparr> \<and> objects s k \<noteq> None \<and> t = fragmentText s k"
  by (auto simp: readFile_unfold fragmentText_def split: option.splits)

lemma readAll_Inr:
  "walkListWithPromises ks readFile s = (Inr texts, s') \<Longrightarrow>
     s' = s\<lparr>requests := requests s @ map GetObject ks\<rparr> \<and>
     texts = map (fragmentText s) ks \<and> (\<forall>k \<in> set ks. objects s k \<noteq> None)"
proof (induction ks arbitrary: s texts)
  case Nil
  then show ?case by (simp add: walk_Nil)
next
  case (Cons k ks)
  from Cons.prems obtain t s1 ts where
    h: "readFile k s = (Inr t, s1)" and t: "walkListWithPromises ks readFile s1 = (Inr ts, s')"
    and texts: "texts = t # ts"
    by (auto simp: walk_Cons split: prod.splits sum.splits)
  from readFile_Inr [OF h] have s1: "s1 = s\<lparr>requests := requests s @ [GetObject k]\<rparr>"
    and k: "objects s k \<noteq> None" and tt: "t = fragmentText s k" by simp_all
  from Cons.IH [OF t] have "s' = s1\<lparr>requests := requests s1 @ map GetObject ks\<rparr>"
    and "ts = map (fragmentText s1) ks" and "\<forall>k \<in> set ks. objects s1 k \<noteq> None" by simp_all
  with s1 k tt texts show ?case by simp
qed

lemma readAll_total:
  "noFaults s \<Longrightarrow> \<forall>k \<in> set ks. objects s k \<noteq> None \<Longrightarrow>
   walkListWithPromises ks readFile s =
     (Inr (map (fragmentText s) ks), s\<lparr>requests := requests s @ map GetObject ks\<rparr>)"
proof (induction ks arbitrary: s)
  case Nil
  then show ?case by (simp add: walk_Nil)
next
  case (Cons k ks)
  let ?s1 = "s\<lparr>requests := requests s @ [GetObject k]\<rparr>"
  from Cons.prems have r: "readFile k s = (Inr (fragmentText s k), ?s1)"
    by (auto simp: readFile_unfold noFaults_def fragmentText_def split: option.splits)
  from Cons.prems have "noFaults ?s1" "\<forall>k \<in> set ks. objects ?s1 k \<noteq> None"
    by (simp_all add: noFaults_def)
  from Cons.IH [OF this] r show ?case by (simp add: walk_Cons)
qed

lemma readLogsForDay_Inr:
  "readLogsForDay d s = (Inr d', s') \<Longrightarrow>
     d' = d\<lparr>log := Str (concat (map (fragmentText s) (logKeys d)))\<rparr> \<and>
     s' = s\<lparr>requests := requests s @ map GetObject (logKeys d)\<rparr> \<and>
     (\<forall>k \<in> set (logKeys d). objects s k \<noteq> None)"
  by (auto simp: readLogsForDay_def andThen_def resolve_def
      split: prod.splits sum.splits dest!: readAll_Inr)

lemma readLogsForDay_total:
  "noFaults s \<Longrightarrow> \<forall>k \<in> set (logKeys d). objects s k \<noteq> None \<Longrightarrow>
   readLogsForDay d s =
     (Inr (d\<lparr>log := Str (concat (map (fragmentText s) (logKeys d)))\<rparr>),
      s\<lparr>requests := requests s @ map GetObject (logKeys d)\<rparr>)"
  by (simp add: readLogsForDay_def andThen_def resolve_def readAll_total)

lemma decodeLog_ends: "decodeLog k b = [] \<or> last (decodeLog k b) = CHR 0x0A"
  by (cases b) (simp_all add: decodeLog_def)

lemma decodeLog_Ascii:
  "decodeLog k (Ascii t) = (if t = [] then [] else if last t = CHR 0x0A then t else t @ [CHR 0x0A])"
  by (simp add: decodeLog_def)

text \<open>
  Claim C5, as amended. When the reads of a day's fragments all succeed, the day's
  \<^verbatim>\<open>log\<close> is the concatenation, in the order of \<^verbatim>\<open>logKeys\<close>, of what the reader
  yields for each fragment, fetched in that order. Each piece is empty or ends with a
  newline: a non-empty text gets a newline appended when it lacks one, and an empty text
  stays empty.
\<close>

theorem daily_log_is_concatenation:
  "readLogsForDay d s = (Inr d', s') \<Longrightarrow>
     log d' = Str (concat (map (fragmentText s) (logKeys d))) \<and>
     requests s' = requests s @ map GetObject (logKeys d) \<and>
     (\<forall>k \<in> set (logKeys d). \<exists>b. objects s k = Some b \<and> fragmentText s k = decodeLog k b \<and>
        (fragmentText s k = [] \<or> last (fragmentText s k) = CHR 0x0A)) \<and>
     (\<forall>k t. objects s k = Some (Ascii t) \<longrightarrow>
        fragmentText s k = (if t = [] then [] else if last t = CHR 0x0A then t else t @ [CHR 0x0A]))"
proof -
  assume h: "readLogsForDay d s = (Inr d', s')"
  from readLogsForDay_Inr [OF h] have
    d': "d' = d\<lparr>log := Str (concat (map (fragmentText s) (logKeys d)))\<rparr>" and
    s': "s' = s\<lparr>requests := requests s @ map GetObject (logKeys d)\<rparr>" and
    all: "\<forall>k \<in> set (logKeys d). objects s k \<noteq> None" by simp_all
  have 1: "log d' = Str (concat (map (fragmentText s) (logKeys d)))"
    using d' by simp
  have 2: "requests s' = requests s @ map GetObject (logKeys d)"
    using s' by simp
  have 3: "\<forall>k \<in> set (logKeys d). \<exists>b. objects s k = Some b \<and> fragmentText s k = decodeLog k b \<and>
        (fragmentText s k = [] \<or> last (fragmentText s k) = CHR 0x0A)"
  proof
    fix k assume "k \<in> set (logKeys d)"
    with all obtain b where b: "objects s k = Some b" by auto
    then have "fragmentText s k = decodeLog k b" by (simp add: fragmentText_def)
    with b decodeLog_ends [of k b] show "\<exists>b. objects s k = Some b \<and> fragmentText s k = decodeLog k b \<and>
        (fragmentText s k = [] \<or> last (fragmentText s k) = CHR 0x0A)" by simp
  qed
  have 4: "\<forall>k t. objects s k = Some (Ascii t) \<longrightarrow>
        fragmentText s k = (if t = [] then [] else if last t = CHR 0x0A then t else t @ [CHR 0x0A])"
    by (simp add: fragmentText_def decodeLog_Ascii)
  from 1 2 3 4 show ?thesis by blast
qed

theorem daily_log_is_concatenation_witness:
  "readLogsForDay day30 (store noListing [keyA \<mapsto> Ascii ''hello'', keyB3 \<mapsto> Ascii (''world'' @ [CHR 0x0A])])
     = (Inr (day30\<lparr>log := Str (''hello'' @ [CHR 0x0A] @ ''world'' @ [CHR 0x0A])\<rparr>),
        (store noListing [keyA \<mapsto> Ascii ''hello'', keyB3 \<mapsto> Ascii (''world'' @ [CHR 0x0A])])
          \<lparr>requests := [GetObject keyA, GetObject keyB3]\<rparr>) \<and>
   log (day30\<lparr>log := Str (''hello'' @ [CHR 0x0A] @ ''world'' @ [CHR 0x0A])\<rparr>)
     = Str (concat (map (fragmentText (store noListing [keyA \<mapsto> Ascii ''hello'', keyB3 \<mapsto> Ascii (''world'' @ [CHR 0x0A])]))
              (logKeys day30)))"
proof -
  let ?s = "store noListing [keyA \<mapsto> Ascii ''hello'', keyB3 \<mapsto> Ascii (''world'' @ [CHR 0x0A])]"
  let ?d = "day30\<lparr>log := Str (''hello'' @ [CHR 0x0A] @ ''world'' @ [CHR 0x0A])\<rparr>"
  have ne: "keyA \<noteq> keyB3" by (simp add: keyA_def keyB3_def)
  have h: "readLogsForDay day30 ?s = (Inr ?d, ?s\<lparr>requests := [GetObject keyA, GetObject keyB3]\<rparr>)"
    using ne
    by (simp add: readLogsForDay_def andThen_def resolve_def walk_Cons walk_Nil readFile_unfold
        store_def day30_def decodeLog_def)
  from daily_log_is_concatenation [OF h] h show ?thesis by simp
qed

text \<open>
  An empty fragment is passed on as it is: no newline is appended to it, and it adds
  nothing to the day's log.
\<close>

theorem empty_fragment_counterexample:
  "readFile keyA (store noListing [keyA \<mapsto> Ascii '''', keyB3 \<mapsto> Ascii ''world''])
     = (Inr '''', (store noListing [keyA \<mapsto> Ascii '''', keyB3 \<mapsto> Ascii ''world''])
                    \<lparr>requests := [GetObject keyA]\<rparr>) \<and>
   readLogsForDay day30 (store noListing [keyA \<mapsto> Ascii '''', keyB3 \<mapsto> Ascii ''world''])
     = (Inr (day30\<lparr>log := Str (''world'' @ [CHR 0x0A])\<rparr>),
        (store noListing [keyA \<mapsto> Ascii '''', keyB3 \<mapsto> Ascii ''world''])
          \<lparr>requests := [GetObject keyA, GetObject keyB3]\<rparr>)"
proof -
  have ne: "keyA \<noteq> keyB3" by (simp add: keyA_def keyB3_def)
  then show ?thesis
    by (simp add: readLogsForDay_def andThen_def resolve_def walk_Cons walk_Nil readFile_unfold
        store_def day30_def decodeLog_def)
qed

section \<open>The daily merger writes the prior content before the new content\<close>

lemma readPriorConsolidation_unfold:
  "readPriorConsolidation d s =
     (case s3_getObject (key d) s of
        (Inr b, s') \<Rightarrow> (Inr (d\<lparr>priorLog := Str (decodeLog (key d) b)\<rparr>), s')
      | (Inl e, s') \<Rightarrow>
          if code e = ''NoSuchKey'' then (Inr (d\<lparr>priorLog := Str ''''\<rparr>), s') else (Inl e, s'))"
  by (simp add: readPriorConsolidation_def catch_def readFile_def andThen_def resolve_def reject_def
      split: prod.splits sum.splits)

lemma writeConsolidatedLog_unfold:
  "writeConsolidatedLog d s =
     (case faults s (length (requests s))
             (PutObject (key d) (toString (js_or (priorLog d) (Str '''')) @ toString (log d))) of
        Some e \<Rightarrow>
          (Inl e, s\<lparr>requests := requests s @
             [PutObject (key d) (toString (js_or (priorLog d) (Str '''')) @ toString (log d))]\<rparr>)
      | None \<Rightarrow>
          (Inr d, s\<lparr>requests := requests s @
             [PutObject (key d) (toString (js_or (priorLog d) (Str '''')) @ toString (log d))],
             objects := (objects s)(key d \<mapsto>
               Ascii (toString (js_or (priorLog d) (Str '''')) @ toString (log d)))\<rparr>))"
  by (simp add: writeConsolidatedLog_def Let_def s3_putObject_def send_def andThen_def resolve_def
      reject_def split: option.splits)

lemma consolidateDailyLog_unfold:
  "consolidateDailyLog d s =
     (case readLogsForDay d s of
        (Inl e, s1) \<Rightarrow> (Inl e, s1)
      | (Inr d1, s1) \<Rightarrow>
          (case readPriorConsolidation d1 s1 of
             (Inl e, s2) \<Rightarrow> (Inl e, s2)
           | (Inr d2, s2) \<Rightarrow> writeConsolidatedLog d2 s2))"
  by (simp add: consolidateDailyLog_def andThen_def split: prod.splits sum.splits)

lemma toString_or_Str [simp]: "toString (js_or (Str p) (Str '''')) = p"
  by (simp add: js_or_def)

lemma consolidateDailyLog_Inr:
  assumes "consolidateDailyLog d s = (Inr d', s')"
  shows "d' = d\<lparr>log := Str (concat (map (fragmentText s) (logKeys d))),
                 priorLog := Str (priorText s d)\<rparr> \<and>
         s' = s\<lparr>requests := requests s @ map GetObject (logKeys d) @
                  [GetObject (key d),
                   PutObject (key d) (priorText s d @ concat (map (fragmentText s) (logKeys d)))],
                objects := (objects s)(key d \<mapsto>
                   Ascii (priorText s d @ concat (map (fragmentText s) (logKeys d))))\<rparr>"
proof -
  let ?N = "concat (map (fragmentText s) (logKeys d))"
  let ?s1 = "s\<lparr>requests := requests s @ map GetObject (logKeys d)\<rparr>"
  from assms obtain d1 s1 d2 s2 where
    r: "readLogsForDay d s = (Inr d1, s1)" and
    p: "readPriorConsolidation d1 s1 = (Inr d2, s2)" and
    w: "writeConsolidatedLog d2 s2 = (Inr d', s')"
    by (auto simp: consolidateDailyLog_unfold split: prod.splits sum.splits)
  from readLogsForDay_Inr [OF r] have d1: "d1 = d\<lparr>log := Str ?N\<rparr>" and s1: "s1 = ?s1"
    by simp_all
  from p have d2: "d2 = d1\<lparr>priorLog := Str (priorText s d)\<rparr>"
    and s2: "s2 = s1\<lparr>requests := requests s1 @ [GetObject (key d)]\<rparr>"
    unfolding d1 s1
    by (auto simp: readPriorConsolidation_unfold getObject_unfold priorText_def fragmentText_def
        split: option.splits if_splits)
  from w show ?thesis
    unfolding d2 s2 d1 s1
    by (auto simp: writeConsolidatedLog_unfold split: option.splits)
qed

lemma consolidateDailyLog_total:
  assumes "noFaults s" and "\<forall>j \<in> set (logKeys d). objects s j \<noteq> None"
  shows "consolidateDailyLog d s =
     (Inr (d\<lparr>log := Str (concat (map (fragmentText s) (logKeys d))),
             priorLog := Str (fragmentText s (key d))\<rparr>),
      s\<lparr>requests := requests s @ map GetObject (logKeys d) @
            [GetObject (key d),
             PutObject (key d) (fragmentText s (key d) @ concat (map (fragmentText s) (logKeys d)))],
         objects := (objects s)(key d \<mapsto>
             Ascii (fragmentText s (key d) @ concat (map (fragmentText s) (logKeys d))))\<rparr>)"
proof -
  let ?N = "concat (map (fragmentText s) (logKeys d))"
  let ?s1 = "s\<lparr>requests := requests s @ map GetObject (logKeys d)\<rparr>"
  let ?d1 = "d\<lparr>log := Str ?N\<rparr>"
  from assms(1) have nf: "\<And>n r. faults s n r = None" by (simp add: noFaults_def)
  have r: "readLogsForDay d s = (Inr ?d1, ?s1)"
    using assms by (rule readLogsForDay_total)
  have p: "readPriorConsolidation ?d1 ?s1 =
      (Inr (?d1\<lparr>priorLog := Str (fragmentText s (key d))\<rparr>),
       ?s1\<lparr>requests := requests ?s1 @ [GetObject (key d)]\<rparr>)"
    by (simp add: readPriorConsolidation_unfold getObject_unfold nf fragmentText_def
        split: option.splits)
  show ?thesis
    by (simp add: consolidateDailyLog_unfold r p writeConsolidatedLog_unfold nf)
qed

text \<open>
  Claim C6, as amended. When the merge of a day succeeds, the content written to the
  day's key is \<open>P @ N\<close>, where \<open>N\<close> is the new content of the day and \<open>P\<close> is the prior
  artifact as the reader yields it: empty when the artifact is absent or the store
  answers \<^verbatim>\<open>NoSuchKey\<close>, and else its text, with a newline appended when it is non-empty
  and lacks one. The write is the last request, after the reads of the fragments and of
  the artifact, and it replaces the artifact. The written content differs from \<open>N\<close>
  whenever \<open>P\<close> is non-empty. A failure of the fetch of the artifact with a code other
  than \<^verbatim>\<open>NoSuchKey\<close> fails the day; with \<^verbatim>\<open>NoSuchKey\<close> the day is written with an
  empty prior content. In a store where no request fails and that holds the fragments of
  the day, the merge succeeds.
\<close>

theorem merge_writes_prior_then_new:
  "(consolidateDailyLog d s = (Inr d', s') \<longrightarrow>
      requests s' = requests s @ map GetObject (logKeys d) @
        [GetObject (key d),
         PutObject (key d) (priorText s d @ concat (map (fragmentText s) (logKeys d)))] \<and>
      objects s' = (objects s)(key d \<mapsto>
         Ascii (priorText s d @ concat (map (fragmentText s) (logKeys d)))) \<and>
      priorLog d' = Str (priorText s d) \<and>
      log d' = Str (concat (map (fragmentText s) (logKeys d)))) \<and>
   (objects s (key d) = None \<longrightarrow> priorText s d = []) \<and>
   (faults s (length (requests s) + length (logKeys d)) (GetObject (key d)) = None \<and>
    objects s (key d) = Some (Ascii p) \<longrightarrow>
      priorText s d = (if p = [] then [] else if last p = CHR 0x0A then p else p @ [CHR 0x0A])) \<and>
   (priorText s d \<noteq> [] \<longrightarrow> priorText s d @ n \<noteq> n) \<and>
   (readLogsForDay d s = (Inr d1, s1) \<and> s3_getObject (key d) s1 = (Inl e, s2) \<and>
    code e \<noteq> ''NoSuchKey'' \<longrightarrow> consolidateDailyLog d s = (Inl e, s2)) \<and>
   (readLogsForDay d s = (Inr d1, s1) \<and> s3_getObject (key d) s1 = (Inl e, s2) \<and>
    code e = ''NoSuchKey'' \<longrightarrow>
      consolidateDailyLog d s = writeConsolidatedLog (d1\<lparr>priorLog := Str ''''\<rparr>) s2) \<and>
   (noFaults s \<and> (\<forall>j \<in> set (logKeys d). objects s j \<noteq> None) \<longrightarrow>
      (\<exists>d' s'. consolidateDailyLog d s = (Inr d', s')) \<and> priorText s d = fragmentText s (key d))"
proof (intro conjI impI)
  assume h: "consolidateDailyLog d s = (Inr d', s')"
  note r = consolidateDailyLog_Inr [OF h]
  from r show "requests s' = requests s @ map GetObject (logKeys d) @
        [GetObject (key d),
         PutObject (key d) (priorText s d @ concat (map (fragmentText s) (logKeys d)))]"
    by simp
  from r show "objects s' = (objects s)(key d \<mapsto>
         Ascii (priorText s d @ concat (map (fragmentText s) (logKeys d))))"
    by simp
  from r show "priorLog d' = Str (priorText s d)" by simp
  from r show "log d' = Str (concat (map (fragmentText s) (logKeys d)))" by simp
next
  assume "objects s (key d) = None"
  then show "priorText s d = []"
    by (simp add: priorText_def fragmentText_def split: option.splits)
next
  assume "faults s (length (requests s) + length (logKeys d)) (GetObject (key d)) = None \<and>
    objects s (key d) = Some (Ascii p)"
  then show "priorText s d = (if p = [] then [] else if last p = CHR 0x0A then p else p @ [CHR 0x0A])"
    by (simp add: priorText_def fragmentText_def decodeLog_Ascii)
next
  assume "priorText s d \<noteq> []"
  then show "priorText s d @ n \<noteq> n" by simp
next
  assume "readLogsForDay d s = (Inr d1, s1) \<and> s3_getObject (key d) s1 = (Inl e, s2) \<and>
    code e \<noteq> ''NoSuchKey''"
  moreover from this have "key d1 = key d"
    by (auto dest: readLogsForDay_Inr)
  ultimately show "consolidateDailyLog d s = (Inl e, s2)"
    by (simp add: consolidateDailyLog_unfold readPriorConsolidation_unfold)
next
  assume "readLogsForDay d s = (Inr d1, s1) \<and> s3_getObject (key d) s1 = (Inl e, s2) \<and>
    code e = ''NoSuchKey''"
  moreover from this have "key d1 = key d"
    by (auto dest: readLogsForDay_Inr)
  ultimately show "consolidateDailyLog d s = writeConsolidatedLog (d1\<lparr>priorLog := Str ''''\<rparr>) s2"
    by (simp add: consolidateDailyLog_unfold readPriorConsolidation_unfold)
next
  assume "noFaults s \<and> (\<forall>j \<in> set (logKeys d). objects s j \<noteq> None)"
  then show "\<exists>d' s'. consolidateDailyLog d s = (Inr d', s')"
    by (simp add: consolidateDailyLog_total)
next
  assume "noFaults s \<and> (\<forall>j \<in> set (logKeys d). objects s j \<noteq> None)"
  then show "priorText s d = fragmentText s (key d)"
    by (simp add: priorText_def noFaults_def)
qed

theorem merge_writes_prior_then_new_witness:
  "requests (snd (consolidateDailyLog day30
      (store noListing [keyA \<mapsto> Ascii ''hello'', keyB3 \<mapsto> Ascii (''world'' @ [CHR 0x0A]),
                        dayKey \<mapsto> Ascii (''previous'' @ [CHR 0x0A])])))
   = [GetObject keyA, GetObject keyB3, GetObject dayKey,
      PutObject dayKey (''previous'' @ [CHR 0x0A] @ ''hello'' @ [CHR 0x0A] @ ''world'' @ [CHR 0x0A])]"
proof -
  let ?s = "store noListing [keyA \<mapsto> Ascii ''hello'', keyB3 \<mapsto> Ascii (''world'' @ [CHR 0x0A]),
                        dayKey \<mapsto> Ascii (''previous'' @ [CHR 0x0A])]"
  have ne: "keyA \<noteq> keyB3" "keyA \<noteq> dayKey" "keyB3 \<noteq> dayKey"
    by (simp_all add: keyA_def keyB3_def dayKey_def)
  have ok: "fst (consolidateDailyLog day30 ?s) =
      Inr (day30\<lparr>log := Str (''hello'' @ [CHR 0x0A] @ ''world'' @ [CHR 0x0A]),
                 priorLog := Str (''previous'' @ [CHR 0x0A])\<rparr>)"
    using ne
    by (simp add: consolidateDailyLog_unfold readLogsForDay_def andThen_def resolve_def walk_Cons
        walk_Nil readFile_unfold readPriorConsolidation_unfold getObject_unfold
        writeConsolidatedLog_unfold store_def day30_def decodeLog_def)
  have p: "priorText ?s day30 = ''previous'' @ [CHR 0x0A]"
    using ne by (simp add: priorText_def fragmentText_def decodeLog_def store_def day30_def)
  have n: "concat (map (fragmentText ?s) (logKeys day30)) = ''hello'' @ [CHR 0x0A] @ ''world'' @ [CHR 0x0A]"
    using ne by (simp add: fragmentText_def decodeLog_def store_def day30_def)
  from ok have "consolidateDailyLog day30 ?s =
      (Inr (day30\<lparr>log := Str (''hello'' @ [CHR 0x0A] @ ''world'' @ [CHR 0x0A]),
                  priorLog := Str (''previous'' @ [CHR 0x0A])\<rparr>), snd (consolidateDailyLog day30 ?s))"
    by (metis prod.collapse)
  with merge_writes_prior_then_new [of day30 ?s _ "snd (consolidateDailyLog day30 ?s)"]
  have "requests (snd (consolidateDailyLog day30 ?s)) = requests ?s @ map GetObject (logKeys day30) @
        [GetObject (key day30),
         PutObject (key day30) (priorText ?s day30 @ concat (map (fragmentText ?s) (logKeys day30)))]"
    by blast
  then show ?thesis
    unfolding p n by (simp add: store_def day30_def)
qed

text \<open>
  A prior artifact \<^verbatim>\<open>previous\<close> without a final newline and the new content
  \<^verbatim>\<open>hello\<close> with its newline: the content written has a newline between them, which
  neither of them has there.
\<close>

theorem prior_without_newline_counterexample:
  "objects (store noListing [keyA \<mapsto> Ascii ''hello'', dayKey \<mapsto> Ascii ''previous'']) dayKey
     = Some (Ascii ''previous'') \<and>
   fst (readLogsForDay day30A (store noListing [keyA \<mapsto> Ascii ''hello'', dayKey \<mapsto> Ascii ''previous'']))
     = Inr (day30A\<lparr>log := Str (''hello'' @ [CHR 0x0A])\<rparr>) \<and>
   putRequests (requests (snd (consolidateDailyLog day30A
      (store noListing [keyA \<mapsto> Ascii ''hello'', dayKey \<mapsto> Ascii ''previous'']))))
     = [(dayKey, ''previous'' @ [CHR 0x0A] @ ''hello'' @ [CHR 0x0A])]"
proof -
  have ne: "keyA \<noteq> dayKey" by (simp add: keyA_def dayKey_def)
  then show ?thesis
    by (simp add: consolidateDailyLog_unfold readLogsForDay_def andThen_def resolve_def walk_Cons
        walk_Nil readFile_unfold readPriorConsolidation_unfold getObject_unfold
        writeConsolidatedLog_unfold store_def day30A_def decodeLog_def putRequests_def)
qed

subsection \<open>A body that cannot be decoded\<close>

text \<open>
  Claim C10. When the fetch of a key succeeds and the conversion of its body throws, the
  reader resolves with the line \<^verbatim>\<open>Exception reading log (key): error\<close> and a newline;
  the reader succeeds exactly when the fetch does; and in a day whose fetches succeed
  that line stands in the day's log at the place of the fragment, between the texts of
  the fragments before and after it; where no request fails the merge of the day then
  succeeds and the artifact written holds the line at that place, after the prior
  content.
\<close>

theorem decoding_exception_becomes_content:
  "(s3_getObject k s = (Inr (Throws ex), s') \<longrightarrow>
      readFile k s = (Inr (''Exception reading log ('' @ k @ ''): '' @ ex @ [CHR 0x0A]), s')) \<and>
   ((\<exists>b s'. s3_getObject k s = (Inr b, s')) \<longleftrightarrow> (\<exists>t s'. readFile k s = (Inr t, s'))) \<and>
   (noFaults s \<and> (\<forall>j \<in> set (logKeys d). objects s j \<noteq> None) \<and>
    logKeys d = pre @ k # post \<and> objects s k = Some (Throws ex) \<longrightarrow>
      readLogsForDay d s =
        (Inr (d\<lparr>log := Str (concat (map (fragmentText s) pre) @
                           (''Exception reading log ('' @ k @ ''): '' @ ex @ [CHR 0x0A]) @
                           concat (map (fragmentText s) post))\<rparr>),
         s\<lparr>requests := requests s @ map GetObject (logKeys d)\<rparr>)) \<and>
   (noFaults s \<and> (\<forall>j \<in> set (logKeys d). objects s j \<noteq> None) \<and>
    logKeys d = pre @ k # post \<and> objects s k = Some (Throws ex) \<longrightarrow>
      (\<exists>d' s'. consolidateDailyLog d s = (Inr d', s') \<and>
         objects s' (key d) =
           Some (Ascii (fragmentText s (key d) @ concat (map (fragmentText s) pre) @
                        (''Exception reading log ('' @ k @ ''): '' @ ex @ [CHR 0x0A]) @
                        concat (map (fragmentText s) post)))))"
proof (intro conjI impI)
  assume "s3_getObject k s = (Inr (Throws ex), s')"
  then show "readFile k s = (Inr (''Exception reading log ('' @ k @ ''): '' @ ex @ [CHR 0x0A]), s')"
    by (simp add: readFile_def andThen_def resolve_def decodeLog_def)
next
  show "(\<exists>b s'. s3_getObject k s = (Inr b, s')) \<longleftrightarrow> (\<exists>t s'. readFile k s = (Inr t, s'))"
    by (auto simp: readFile_def andThen_def resolve_def split: prod.splits sum.splits)
next
  assume h: "noFaults s \<and> (\<forall>j \<in> set (logKeys d). objects s j \<noteq> None) \<and>
    logKeys d = pre @ k # post \<and> objects s k = Some (Throws ex)"
  then have "fragmentText s k = ''Exception reading log ('' @ k @ ''): '' @ ex @ [CHR 0x0A]"
    by (simp add: fragmentText_def decodeLog_def)
  with h readLogsForDay_total [of s d]
  show "readLogsForDay d s =
        (Inr (d\<lparr>log := Str (concat (map (fragmentText s) pre) @
                           (''Exception reading log ('' @ k @ ''): '' @ ex @ [CHR 0x0A]) @
                           concat (map (fragmentText s) post))\<rparr>),
         s\<lparr>requests := requests s @ map GetObject (logKeys d)\<rparr>)"
    by simp
next
  assume h: "noFaults s \<and> (\<forall>j \<in> set (logKeys d). objects s j \<noteq> None) \<and>
    logKeys d = pre @ k # post \<and> objects s k = Some (Throws ex)"
  then have "fragmentText s k = ''Exception reading log ('' @ k @ ''): '' @ ex @ [CHR 0x0A]"
    by (simp add: fragmentText_def decodeLog_def)
  with h consolidateDailyLog_total [of s d]
  show "\<exists>d' s'. consolidateDailyLog d s = (Inr d', s') \<and>
         objects s' (key d) =
           Some (Ascii (fragmentText s (key d) @ concat (map (fragmentText s) pre) @
                        (''Exception reading log ('' @ k @ ''): '' @ ex @ [CHR 0x0A]) @
                        concat (map (fragmentText s) post)))"
    by simp
qed

theorem decoding_exception_becomes_content_witness:
  "readLogsForDay day30 (store noListing [keyA \<mapsto> Ascii ''hello'', keyB3 \<mapsto> Throws ''TypeError: boom''])
     = (Inr (day30\<lparr>log := Str (''hello'' @ [CHR 0x0A] @
                ''Exception reading log (log/tbcd1234/20210730T140000.000Z.log): TypeError: boom'' @
                [CHR 0x0A])\<rparr>),
        (store noListing [keyA \<mapsto> Ascii ''hello'', keyB3 \<mapsto> Throws ''TypeError: boom''])
          \<lparr>requests := [GetObject keyA, GetObject keyB3]\<rparr>)"
proof -
  let ?s = "store noListing [keyA \<mapsto> Ascii ''hello'', keyB3 \<mapsto> Throws ''TypeError: boom'']"
  have ne: "keyA \<noteq> keyB3" by (simp add: keyA_def keyB3_def)
  have 1: "noFaults ?s" by (simp add: noFaults_def store_def)
  have 2: "\<forall>j \<in> set (logKeys day30). objects ?s j \<noteq> None" by (simp add: day30_def store_def)
  have 3: "logKeys day30 = [keyA] @ keyB3 # []" by (simp add: day30_def)
  have 4: "objects ?s keyB3 = Some (Throws ''TypeError: boom'')" by (simp add: store_def)
  have 5: "fragmentText ?s keyA = ''hello'' @ [CHR 0x0A]"
    using ne by (simp add: fragmentText_def store_def decodeLog_def)
  from decoding_exception_becomes_content [of keyB3 ?s "''TypeError: boom''" _ day30 "[keyA]" "[]"]
    1 2 3 4
  have "readLogsForDay day30 ?s =
        (Inr (day30\<lparr>log := Str (concat (map (fragmentText ?s) [keyA]) @
                           (''Exception reading log ('' @ keyB3 @ ''): '' @ ''TypeError: boom'' @ [CHR 0x0A]) @
                           concat (map (fragmentText ?s) []))\<rparr>),
         ?s\<lparr>requests := requests ?s @ map GetObject (logKeys day30)\<rparr>)"
    by blast
  then show ?thesis
    using 5 by (simp add: keyB3_def day30_def store_def)
qed

section \<open>The partitioner groups the keys by runs of one date\<close>

lemma exec_length: "exec re n item = Some parse \<Longrightarrow> length parse = Suc n"
  by (auto simp: exec_def split: list.splits)

lemma exec_elems: "exec re n item = Some parse \<Longrightarrow> v \<in> set parse \<Longrightarrow> v \<noteq> Num m"
  by (auto simp: exec_def split: list.splits option.splits)

lemma exec_not_Num: "exec re n item = Some parse \<Longrightarrow> i \<le> n \<Longrightarrow> parse ! i \<noteq> Num m"
  using exec_elems [of re n item parse "parse ! i" m] exec_length [of re n item parse]
  by simp

lemma matchesName_iff: "matchesName item \<longleftrightarrow> nameRe_exec item \<noteq> None"
  by (auto simp: matchesName_def nameRe_exec_def MINLENGTH_def dest: exec_length split: option.splits)

lemma capture_not_Num: "i \<le> 7 \<Longrightarrow> capture i item \<noteq> Num m"
  by (auto simp: capture_def nameRe_exec_def dest: exec_not_Num split: option.splits)

lemma forEachItem_skip: "\<not> matchesName item \<Longrightarrow> forEachItem item st = st"
  by (cases st) (auto simp: matchesName_def split: option.splits)

lemma forEachItem_match:
  "nameRe_exec item = Some parse \<Longrightarrow>
   forEachItem item (lst, cur, cd) =
     (if cd \<noteq> capture DATEIX item
      then (closeDay lst cur, Some ((newDay parse)\<lparr>logKeys := [item]\<rparr>), capture DATEIX item)
      else (lst, pushKey item cur, cd))"
  by (auto simp: capture_def pushKey_def newDay_def nameRe_exec_def MINLENGTH_def dest: exec_length)

declare forEachItem.simps [simp del]

lemma remdups_adj_snoc:
  "remdups_adj (xs @ [y]) = (if xs \<noteq> [] \<and> last xs = y then remdups_adj xs else remdups_adj xs @ [y])"
proof (cases xs rule: rev_cases)
  case Nil
  then show ?thesis by simp
next
  case (snoc ys x)
  then show ?thesis by (simp add: remdups_adj_append_two)
qed

lemma partitionInv_init: "partitionInv [] ([], None, Num (- 1))"
  by (simp add: partitionInv_def closeDay_def)

lemma partitionInv_step:
  assumes "partitionInv ks st"
  shows "partitionInv (ks @ [item]) (forEachItem item st)"
proof (cases "nameRe_exec item")
  case None
  then have "\<not> matchesName item" by (simp add: matchesName_iff)
  with assms show ?thesis by (simp add: forEachItem_skip partitionInv_def)
next
  case (Some parse)
  then have m: "matchesName item" by (simp add: matchesName_iff)
  obtain lst cur cd where st: "st = (lst, cur, cd)" by (cases st)
  show ?thesis
  proof (cases cur)
    case None
    with assms st have "cd = Num (- 1)" "lst = []" "filter matchesName ks = []"
      by (auto simp: partitionInv_def closeDay_def)
    moreover have "Num (- 1) \<noteq> capture DATEIX item"
      using capture_not_Num [of DATEIX item "- 1"] by (simp add: DATEIX_def)
    ultimately show ?thesis
      using st None Some m
      by (simp add: forEachItem_match partitionInv_def closeDay_def)
  next
    case (Some d)
    note cur = this
    from assms st cur have
      a: "concat (map logKeys lst) @ logKeys d = filter matchesName ks" and
      b: "map (\<lambda>g. remdups_adj (map (capture DATEIX) (logKeys g))) lst @
            [remdups_adj (map (capture DATEIX) (logKeys d))] =
          map (\<lambda>d. [d]) (remdups_adj (map (capture DATEIX) (filter matchesName ks)))" and
      c: "logKeys d \<noteq> []" "cd = capture DATEIX (last (logKeys d))" and
      e: "list_all (\<lambda>g. case logKeys g of
                         [] \<Rightarrow> False
                       | k # rest \<Rightarrow>
                           (case nameRe_exec k of
                              None \<Rightarrow> False
                            | Some parse \<Rightarrow> g = (newDay parse)\<lparr>logKeys := k # rest\<rparr>))
                 (lst @ [d])"
      by (auto simp: partitionInv_def closeDay_def)
    from a c have ne: "filter matchesName ks \<noteq> []"
      and last: "last (map (capture DATEIX) (filter matchesName ks)) = cd"
      by (auto simp: last_map simp flip: a)
    let ?ms = "filter matchesName ks"
    let ?date = "capture DATEIX"
    have ms': "filter matchesName (ks @ [item]) = ?ms @ [item]"
      using m by simp
    show ?thesis
    proof (cases "cd = capture DATEIX item")
      case True
      from c have ld: "last (map ?date (logKeys d)) = cd" by (simp add: last_map)
      have r1: "remdups_adj (map ?date (?ms @ [item])) = remdups_adj (map ?date ?ms)"
        using ne last True by (simp add: remdups_adj_snoc)
      have r2: "remdups_adj (map ?date (logKeys d @ [item])) = remdups_adj (map ?date (logKeys d))"
        using c ld True by (simp add: remdups_adj_snoc)
      from e c have e': "list_all (\<lambda>g. case logKeys g of
                         [] \<Rightarrow> False
                       | k # rest \<Rightarrow>
                           (case nameRe_exec k of
                              None \<Rightarrow> False
                            | Some parse \<Rightarrow> g = (newDay parse)\<lparr>logKeys := k # rest\<rparr>))
                 (lst @ [d\<lparr>logKeys := logKeys d @ [item]\<rparr>])"
        by (cases "logKeys d") (auto split: option.splits)
      have f: "forEachItem item st = (lst, Some (d\<lparr>logKeys := logKeys d @ [item]\<rparr>), cd)"
        using st cur True \<open>nameRe_exec item = Some parse\<close>
        by (simp add: forEachItem_match pushKey_def)
      have "concat (map logKeys (lst @ [d\<lparr>logKeys := logKeys d @ [item]\<rparr>])) = ?ms @ [item]"
        using a by simp
      moreover have "map (\<lambda>g. remdups_adj (map ?date (logKeys g)))
            (lst @ [d\<lparr>logKeys := logKeys d @ [item]\<rparr>]) =
          map (\<lambda>d. [d]) (remdups_adj (map ?date (?ms @ [item])))"
        using b r2 unfolding r1 by simp
      moreover have "cd = ?date (last (logKeys d @ [item]))"
        using True by simp
      ultimately show ?thesis
        unfolding f using e' m by (simp add: partitionInv_def closeDay_def)
    next
      case False
      have r1: "remdups_adj (map ?date (?ms @ [item])) = remdups_adj (map ?date ?ms) @ [?date item]"
        using ne last False by (simp add: remdups_adj_snoc)
      have f: "forEachItem item st =
          (lst @ [d], Some ((newDay parse)\<lparr>logKeys := [item]\<rparr>), ?date item)"
        using st cur False \<open>nameRe_exec item = Some parse\<close>
        by (simp add: forEachItem_match closeDay_def)
      have "concat (map logKeys ((lst @ [d]) @ [(newDay parse)\<lparr>logKeys := [item]\<rparr>])) = ?ms @ [item]"
        using a by simp
      moreover have "map (\<lambda>g. remdups_adj (map ?date (logKeys g)))
            ((lst @ [d]) @ [(newDay parse)\<lparr>logKeys := [item]\<rparr>]) =
          map (\<lambda>d. [d]) (remdups_adj (map ?date (?ms @ [item])))"
        using b unfolding r1 by simp
      moreover have "list_all (\<lambda>g. case logKeys g of
                         [] \<Rightarrow> False
                       | k # rest \<Rightarrow>
                           (case nameRe_exec k of
                              None \<Rightarrow> False
                            | Some parse \<Rightarrow> g = (newDay parse)\<lparr>logKeys := k # rest\<rparr>))
                 ((lst @ [d]) @ [(newDay parse)\<lparr>logKeys := [item]\<rparr>])"
        using e \<open>nameRe_exec item = Some parse\<close> by simp
      ultimately show ?thesis
        unfolding f using m by (simp add: partitionInv_def closeDay_def)
    qed
  qed
qed

lemma partitionInv_fold:
  "partitionInv ks (fold forEachItem ks ([], None, Num (- 1)))"
proof (induction ks rule: rev_induct)
  case Nil
  show ?case by (simp add: partitionInv_init)
next
  case (snoc k ks)
  then show ?case by (simp add: partitionInv_step)
qed

lemma push_defined:
  assumes "fold forEachItem ks ([], None, Num (- 1)) = (lst, cur, cd)"
    and "nameRe_exec item = Some parse" and "cd = parse ! DATEIX"
  shows "cur \<noteq> None"
proof
  assume "cur = None"
  with partitionInv_fold [of ks] assms(1) have "cd = Num (- 1)"
    by (simp add: partitionInv_def)
  moreover from assms(2) have "parse ! DATEIX \<noteq> Num (- 1)"
    unfolding nameRe_exec_def by (rule exec_not_Num) (simp add: DATEIX_def)
  ultimately show False using assms(3) by simp
qed

lemma partition_concat:
  "concat (map logKeys (partitionByDays ks)) = filter matchesName ks"
  using partitionInv_fold [of ks]
  by (auto simp: partitionByDays_def partitionInv_def split: prod.splits)



subsection \<open>The captures of a key that matches\<close>










declare backtrack.simps [simp del]















subsection \<open>The groups\<close>


lemma group_keys:
  assumes "g \<in> set (partitionByDays ks)"
  shows "set (logKeys g) \<subseteq> set (filter matchesName ks)"
proof -
  from assms have "set (logKeys g) \<subseteq> set (concat (map logKeys (partitionByDays ks)))"
    by auto
  then show ?thesis by (simp only: partition_concat)
qed






section \<open>Deleting the fragments of a source\<close>

lemma listObjectsV2_unfold:
  "s3_listObjectsV2 p s =
     (case faults s (length (requests s)) (ListObjectsV2 p) of
        Some e \<Rightarrow> (Inl e, s\<lparr>requests := requests s @ [ListObjectsV2 p]\<rparr>)
      | None \<Rightarrow> (Inr (listing s p), s\<lparr>requests := requests s @ [ListObjectsV2 p]\<rparr>))"
  by (simp add: s3_listObjectsV2_def send_def resolve_def reject_def split: option.splits)

lemma getLogFileList_unfold:
  "getLogFileList tbcd s =
     (case faults s (length (requests s)) (ListObjectsV2 tbcd) of
        Some e \<Rightarrow> (Inl e, s\<lparr>requests := requests s @ [ListObjectsV2 tbcd]\<rparr>)
      | None \<Rightarrow> (Inr (Contents (listing s tbcd)), s\<lparr>requests := requests s @ [ListObjectsV2 tbcd]\<rparr>))"
  by (simp add: getLogFileList_def andThen_def listObjectsV2_unfold resolve_def split: option.splits)

lemma getTbLoaderList_unfold:
  "getTbLoaderList s =
     (case faults s (length (requests s)) (ListObjectsV2 ''log/'') of
        Some e \<Rightarrow> (Inl e, s\<lparr>requests := requests s @ [ListObjectsV2 ''log/'']\<rparr>)
      | None \<Rightarrow>
          (Inr (filter (\<lambda>item. startsWith (toLowerCase item) ''log/tbcd'')
                       (CommonPrefixes (listing s ''log/''))),
           s\<lparr>requests := requests s @ [ListObjectsV2 ''log/'']\<rparr>))"
  by (simp add: getTbLoaderList_def andThen_def listObjectsV2_unfold resolve_def split: option.splits)

lemma removeLogItems_unfold:
  "removeLogItems ks s =
     (case faults s (length (requests s)) (DeleteObjects ks) of
        Some e \<Rightarrow> (Inl e, s\<lparr>requests := requests s @ [DeleteObjects ks]\<rparr>)
      | None \<Rightarrow>
          if ks = [] then (Inl (Error ''MalformedXML''), s\<lparr>requests := requests s @ [DeleteObjects ks]\<rparr>)
          else (Inr 0, s\<lparr>requests := requests s @ [DeleteObjects ks],
                         objects := (\<lambda>k. if k \<in> set ks then None else objects s k)\<rparr>))"
  by (simp add: removeLogItems_def andThen_def s3_deleteObjects_def send_def resolve_def reject_def
      Let_def split: option.splits cong: if_cong)

lemma processTbLoader_unfold:
  "processTbLoader tbcd s =
     (case getLogFileList tbcd s of
        (Inl e, s1) \<Rightarrow> (Inl e, s1)
      | (Inr files, s1) \<Rightarrow>
          (case consolidateDailyLogs (partitionByDays files) s1 of
             (Inl e, s2) \<Rightarrow> (Inl e, s2)
           | (Inr ds, s2) \<Rightarrow> removeLogItems files s2))"
  by (simp add: processTbLoader_def andThen_def resolve_def split: prod.splits sum.splits)

lemma deleteRequests_append [simp]:
  "deleteRequests (xs @ ys) = deleteRequests xs @ deleteRequests ys"
  by (simp add: deleteRequests_def)

lemma putRequests_append [simp]:
  "putRequests (xs @ ys) = putRequests xs @ putRequests ys"
  by (simp add: putRequests_def)

lemma deleteRequests_simps [simp]:
  "deleteRequests [] = []"
  "deleteRequests (DeleteObjects ks # rs) = ks # deleteRequests rs"
  "deleteRequests (GetObject k # rs) = deleteRequests rs"
  "deleteRequests (PutObject k b # rs) = deleteRequests rs"
  "deleteRequests (ListObjectsV2 p # rs) = deleteRequests rs"
  by (simp_all add: deleteRequests_def)

lemma putRequests_simps [simp]:
  "putRequests [] = []"
  "putRequests (DeleteObjects ks # rs) = putRequests rs"
  "putRequests (GetObject k # rs) = putRequests rs"
  "putRequests (PutObject k b # rs) = (k, b) # putRequests rs"
  "putRequests (ListObjectsV2 p # rs) = putRequests rs"
  by (simp_all add: putRequests_def)

lemma walk_preserves:
  assumes "\<And>x s r s'. fn x s = (r, s') \<Longrightarrow> f s' = f s"
  shows "walkListWithPromises xs fn s = (r, s') \<Longrightarrow> f s' = f s"
proof (induction xs arbitrary: s r s')
  case Nil
  then show ?case by (simp add: walk_Nil)
next
  case (Cons x xs)
  obtain r1 s1 where h: "fn x s = (r1, s1)" by (cases "fn x s")
  with assms have 1: "f s1 = f s" by blast
  show ?case
  proof (cases r1)
    case (Inl e)
    with Cons.prems h 1 show ?thesis by (simp add: walk_Cons)
  next
    case (Inr d)
    obtain r2 s2 where t: "walkListWithPromises xs fn s1 = (r2, s2)"
      by (cases "walkListWithPromises xs fn s1")
    with Cons.IH have "f s2 = f s1" by blast
    with Cons.prems h Inr t 1 show ?thesis
      by (auto simp: walk_Cons split: sum.splits)
  qed
qed

lemma readFile_deletes:
  "readFile k s = (r, s') \<Longrightarrow> deleteRequests (requests s') = deleteRequests (requests s)"
  by (auto simp: readFile_unfold split: option.splits)

lemma consolidateDailyLog_deletes:
  assumes "consolidateDailyLog d s = (r, s')"
  shows "deleteRequests (requests s') = deleteRequests (requests s)"
proof -
  have rl: "\<And>d s r s'. readLogsForDay d s = (r, s') \<Longrightarrow>
      deleteRequests (requests s') = deleteRequests (requests s)"
    using walk_preserves [of readFile "\<lambda>s. deleteRequests (requests s)", OF readFile_deletes]
    by (fastforce simp: readLogsForDay_def andThen_def resolve_def split: prod.splits sum.splits)
  have rp: "\<And>d s r s'. readPriorConsolidation d s = (r, s') \<Longrightarrow>
      deleteRequests (requests s') = deleteRequests (requests s)"
    by (auto simp: readPriorConsolidation_unfold getObject_unfold split: option.splits if_splits)
  have w: "\<And>d s r s'. writeConsolidatedLog d s = (r, s') \<Longrightarrow>
      deleteRequests (requests s') = deleteRequests (requests s)"
    by (auto simp: writeConsolidatedLog_unfold split: option.splits)
  obtain r1 s1 where a: "readLogsForDay d s = (r1, s1)" by (cases "readLogsForDay d s")
  note 1 = rl [OF a]
  show ?thesis
  proof (cases r1)
    case (Inl e)
    with assms a 1 show ?thesis by (simp add: consolidateDailyLog_unfold)
  next
    case (Inr d1)
    note r1 = this
    obtain r2 s2 where b: "readPriorConsolidation d1 s1 = (r2, s2)"
      by (cases "readPriorConsolidation d1 s1")
    note 2 = rp [OF b]
    show ?thesis
    proof (cases r2)
      case (Inl e)
      with assms a b r1 1 2 show ?thesis by (simp add: consolidateDailyLog_unfold)
    next
      case (Inr d2)
      with assms a b r1 have "writeConsolidatedLog d2 s2 = (r, s')"
        by (simp add: consolidateDailyLog_unfold)
      from w [OF this] 1 2 show ?thesis by simp
    qed
  qed
qed

lemma consolidateDailyLogs_deletes:
  "consolidateDailyLogs ds s = (r, s') \<Longrightarrow>
     deleteRequests (requests s') = deleteRequests (requests s)"
  unfolding consolidateDailyLogs_def
  by (rule walk_preserves [of consolidateDailyLog "\<lambda>s. deleteRequests (requests s)"])
     (rule consolidateDailyLog_deletes)

lemma putRequests_gets [simp]: "putRequests (map GetObject ks) = []"
  by (induction ks) simp_all

lemma consolidateDailyLogs_puts:
  "consolidateDailyLogs gs s = (Inr ds, s') \<Longrightarrow>
     map fst (putRequests (requests s')) = map fst (putRequests (requests s)) @ map key gs"
proof (induction gs arbitrary: s ds)
  case Nil
  then show ?case by (simp add: consolidateDailyLogs_def walk_Nil)
next
  case (Cons g gs)
  from Cons.prems obtain d1 s1 ds1 where
    h: "consolidateDailyLog g s = (Inr d1, s1)" and
    t: "walkListWithPromises gs consolidateDailyLog s1 = (Inr ds1, s')"
    by (auto simp: consolidateDailyLogs_def walk_Cons split: prod.splits sum.splits)
  from consolidateDailyLog_Inr [OF h]
  have 1: "map fst (putRequests (requests s1)) = map fst (putRequests (requests s)) @ [key g]"
    by simp
  from t have "consolidateDailyLogs gs s1 = (Inr ds1, s')" by (simp add: consolidateDailyLogs_def)
  from Cons.IH [OF this] 1 show ?case by simp
qed

text \<open>
  What the program does about the fragments of a source. When the listing of a source
  succeeds and every group of the source is merged, each group has been written once, in
  order, and the source then issues one delete request, which names the member keys of
  all the groups. When the merge of a group fails (the write among its steps), the
  source fails with that error in the state the failing group left, and no delete
  request has been issued for the source, also not for the groups written before.
\<close>

lemma delete_after_all_days_written:
  assumes "getLogFileList tbcd s = (Inr files, s1)"
  shows "(consolidateDailyLogs (partitionByDays files) s1 = (Inr ds, s2) \<longrightarrow>
            map fst (putRequests (requests s2)) =
              map fst (putRequests (requests s)) @ map key (partitionByDays files) \<and>
            (\<exists>ks. deleteRequests (requests (snd (processTbLoader tbcd s))) =
                     deleteRequests (requests s) @ [ks] \<and>
                  (\<forall>g \<in> set (partitionByDays files). set (logKeys g) \<subseteq> set ks))) \<and>
         (consolidateDailyLogs (partitionByDays files) s1 = (Inl e, s2) \<longrightarrow>
            processTbLoader tbcd s = (Inl e, s2) \<and>
            deleteRequests (requests s2) = deleteRequests (requests s)) \<and>
         (partitionByDays files = before @ g # after \<and>
          consolidateDailyLogs before s1 = (Inr ds', s3) \<and>
          consolidateDailyLog g s3 = (Inl e', s4) \<longrightarrow>
            processTbLoader tbcd s = (Inl e', s4) \<and>
            deleteRequests (requests s4) = deleteRequests (requests s))"
proof -
  from assms have l: "deleteRequests (requests s1) = deleteRequests (requests s)"
    by (auto simp: getLogFileList_unfold split: option.splits)
  have fail: "processTbLoader tbcd s = (Inl x, t) \<and>
      deleteRequests (requests t) = deleteRequests (requests s)"
    if "consolidateDailyLogs (partitionByDays files) s1 = (Inl x, t)" for x t
    using that assms l consolidateDailyLogs_deletes [OF that]
    by (simp add: processTbLoader_unfold)
  have 1: "\<exists>ks. deleteRequests (requests (snd (processTbLoader tbcd s))) =
                     deleteRequests (requests s) @ [ks] \<and>
                  (\<forall>g \<in> set (partitionByDays files). set (logKeys g) \<subseteq> set ks)"
    if h: "consolidateDailyLogs (partitionByDays files) s1 = (Inr ds, s2)"
  proof (intro exI conjI)
    from h assms have "processTbLoader tbcd s = removeLogItems files s2"
      by (simp add: processTbLoader_unfold)
    then show "deleteRequests (requests (snd (processTbLoader tbcd s))) =
                     deleteRequests (requests s) @ [files]"
      using consolidateDailyLogs_deletes [OF h] l
      by (simp add: removeLogItems_unfold split: option.splits)
    show "\<forall>g \<in> set (partitionByDays files). set (logKeys g) \<subseteq> set files"
      using group_keys [of _ files] by auto
  qed
  have 3: "processTbLoader tbcd s = (Inl e', s4) \<and>
            deleteRequests (requests s4) = deleteRequests (requests s)"
    if h: "partitionByDays files = before @ g # after \<and>
          consolidateDailyLogs before s1 = (Inr ds', s3) \<and>
          consolidateDailyLog g s3 = (Inl e', s4)"
  proof -
    from h have "consolidateDailyLogs (partitionByDays files) s1 = (Inl e', s4)"
      by (simp add: consolidateDailyLogs_def walk_append walk_Cons)
    then show ?thesis by (rule fail)
  qed
  have 0: "map fst (putRequests (requests s2)) =
              map fst (putRequests (requests s)) @ map key (partitionByDays files)"
    if h: "consolidateDailyLogs (partitionByDays files) s1 = (Inr ds, s2)"
  proof -
    from assms have "putRequests (requests s1) = putRequests (requests s)"
      by (auto simp: getLogFileList_unfold split: option.splits)
    with consolidateDailyLogs_puts [OF h] show ?thesis by simp
  qed
  from 0 1 fail 3 show ?thesis by blast
qed

lemma delete_after_all_days_written_example:
  "fst (processTbLoader sourceKey
      (storeFailingPut [keyA, keyC] [keyA \<mapsto> Ascii ''hello'', keyC \<mapsto> Ascii ''later''] dayKey31))
     = Inl (Error ''SlowDown'') \<and>
   deleteRequests (requests (snd (processTbLoader sourceKey
      (storeFailingPut [keyA, keyC] [keyA \<mapsto> Ascii ''hello'', keyC \<mapsto> Ascii ''later''] dayKey31))))
     = []"
proof -
  let ?s = "storeFailingPut [keyA, keyC] [keyA \<mapsto> Ascii ''hello'', keyC \<mapsto> Ascii ''later''] dayKey31"
  let ?s1 = "snd (getLogFileList sourceKey ?s)"
  let ?s3 = "snd (consolidateDailyLogs [day30A] ?s1)"
  let ?s4 = "snd (consolidateDailyLog day31 ?s3)"
  have a: "fst (getLogFileList sourceKey ?s) = Inr [keyA, keyC]" by code_simp
  have b: "partitionByDays [keyA, keyC] = [] @ day30A # [day31]" by code_simp
  have b': "partitionByDays [keyA, keyC] = [day30A] @ day31 # []" by code_simp
  have c: "fst (consolidateDailyLogs [day30A] ?s1) =
             Inr [day30A\<lparr>log := Str (''hello'' @ [CHR 0x0A]), priorLog := Str ''''\<rparr>]" by code_simp
  have d: "fst (consolidateDailyLog day31 ?s3) = Inl (Error ''SlowDown'')" by code_simp
  have e: "deleteRequests (requests ?s) = []" by code_simp
  have a': "getLogFileList sourceKey ?s = (Inr [keyA, keyC], ?s1)"
    using a by (simp add: prod_eq_iff)
  have c': "consolidateDailyLogs [day30A] ?s1 =
             (Inr [day30A\<lparr>log := Str (''hello'' @ [CHR 0x0A]), priorLog := Str ''''\<rparr>], ?s3)"
    using c by (simp add: prod_eq_iff)
  have d': "consolidateDailyLog day31 ?s3 = (Inl (Error ''SlowDown''), ?s4)"
    using d by (simp add: prod_eq_iff)
  from delete_after_all_days_written [OF a', THEN conjunct2, THEN conjunct2,
      of "[day30A]" day31 "[]" _ ?s3 "Error ''SlowDown''" ?s4] b' c' d'
  have "processTbLoader sourceKey ?s = (Inl (Error ''SlowDown''), ?s4) \<and>
        deleteRequests (requests ?s4) = deleteRequests (requests ?s)"
    by blast
  then show ?thesis unfolding e by simp
qed

text \<open>
  Claim C3 at a failing input. A source has one fragment on each of two days, and the
  write of the second day fails. The first day has been written, so by the claim its
  fragment is to be deleted; the run issues no delete request and the fragment stays.
  The next run, in the store the first left and with no failure, reads the fragment of
  the first day again and writes its text a second time behind the artifact of the
  first run, before it deletes both fragments.
\<close>

theorem written_day_not_deleted:
  "fst (processTbLoader sourceKey
      (storeFailingPut [keyA, keyC] [keyA \<mapsto> Ascii ''hello'', keyC \<mapsto> Ascii ''later''] dayKey31))
     = Inl (Error ''SlowDown'') \<and>
   requests (snd (processTbLoader sourceKey
      (storeFailingPut [keyA, keyC] [keyA \<mapsto> Ascii ''hello'', keyC \<mapsto> Ascii ''later''] dayKey31)))
     = [ListObjectsV2 sourceKey, GetObject keyA, GetObject dayKey,
        PutObject dayKey (''hello'' @ [CHR 0x0A]), GetObject keyC, GetObject dayKey31,
        PutObject dayKey31 (''later'' @ [CHR 0x0A])] \<and>
   objects afterFailedWrite dayKey = Some (Ascii (''hello'' @ [CHR 0x0A])) \<and>
   objects afterFailedWrite keyA = Some (Ascii ''hello'') \<and>
   fst (processTbLoader sourceKey afterFailedWrite) = Inr 0 \<and>
   putRequests (drop 7 (requests (snd (processTbLoader sourceKey afterFailedWrite))))
     = [(dayKey, ''hello'' @ [CHR 0x0A] @ ''hello'' @ [CHR 0x0A]),
        (dayKey31, ''later'' @ [CHR 0x0A])] \<and>
   deleteRequests (requests (snd (processTbLoader sourceKey afterFailedWrite)))
     = [[keyA, keyC]]"
  by code_simp

section \<open>The handler and whole runs\<close>

lemma handler_unfold:
  "handler s =
     (case getTbLoaderList s of
        (Inl err, s1) \<Rightarrow> ((Some err, None), s1)
      | (Inr list, s1) \<Rightarrow>
          (case processTbLoaderList list s1 of
             (Inl err, s2) \<Rightarrow> ((Some err, None), s2)
           | (Inr result, s2) \<Rightarrow> ((None, Some result), s2)))"
  by (simp add: handler_def andThen_def split: prod.splits sum.splits)

lemma processTbLoader_result: "processTbLoader tbcd s = (Inr r, s') \<Longrightarrow> r = 0"
  by (auto simp: processTbLoader_unfold removeLogItems_unfold
      split: prod.splits sum.splits option.splits if_splits)

lemma processTbLoaderList_result:
  "processTbLoaderList list s = (Inr result, s') \<Longrightarrow> result = replicate (length list) 0"
proof (induction list arbitrary: s result)
  case Nil
  then show ?case by (simp add: processTbLoaderList_def walk_Nil)
next
  case (Cons t list)
  from Cons.prems obtain r s1 rs where
    h: "processTbLoader t s = (Inr r, s1)" "walkListWithPromises list processTbLoader s1 = (Inr rs, s')"
       "result = r # rs"
    by (auto simp: processTbLoaderList_def walk_Cons split: prod.splits sum.splits)
  from h(2) have "processTbLoaderList list s1 = (Inr rs, s')" by (simp add: processTbLoaderList_def)
  from Cons.IH [OF this] processTbLoader_result [OF h(1)] h(3) show ?case by simp
qed

text \<open>
  Claim C7, as amended. The handler runs the pipeline once and passes to its callback
  either the first error met, alone, or no error and a list that holds one \<open>0\<close> for each
  source enumerated. The error is that of the enumeration when it fails, and else that
  of the first source whose processing fails, in the store state that source left.
\<close>

theorem handler_reports:
  "handler s =
     (case getTbLoaderList s of
        (Inl err, s1) \<Rightarrow> ((Some err, None), s1)
      | (Inr list, s1) \<Rightarrow>
          (case processTbLoaderList list s1 of
             (Inl err, s2) \<Rightarrow> ((Some err, None), s2)
           | (Inr result, s2) \<Rightarrow> ((None, Some (replicate (length list) 0)), s2))) \<and>
   (getTbLoaderList s = (Inr (before @ t # after), s1) \<and>
    processTbLoaderList before s1 = (Inr rs, s2) \<and> processTbLoader t s2 = (Inl err, s3) \<longrightarrow>
      handler s = ((Some err, None), s3))"
proof (intro conjI impI)
  show "handler s =
     (case getTbLoaderList s of
        (Inl err, s1) \<Rightarrow> ((Some err, None), s1)
      | (Inr list, s1) \<Rightarrow>
          (case processTbLoaderList list s1 of
             (Inl err, s2) \<Rightarrow> ((Some err, None), s2)
           | (Inr result, s2) \<Rightarrow> ((None, Some (replicate (length list) 0)), s2)))"
    by (auto simp: handler_unfold split: prod.splits sum.splits dest: processTbLoaderList_result)
next
  assume "getTbLoaderList s = (Inr (before @ t # after), s1) \<and>
    processTbLoaderList before s1 = (Inr rs, s2) \<and> processTbLoader t s2 = (Inl err, s3)"
  then show "handler s = ((Some err, None), s3)"
    by (simp add: handler_unfold processTbLoaderList_def walk_append walk_Cons)
qed

theorem handler_reports_witness:
  "fst (handler (storeFailingPut [keyA, keyC] [keyA \<mapsto> Ascii ''hello'', keyC \<mapsto> Ascii ''later''] dayKey31))
     = (Some (Error ''SlowDown''), None)"
proof -
  let ?s = "storeFailingPut [keyA, keyC] [keyA \<mapsto> Ascii ''hello'', keyC \<mapsto> Ascii ''later''] dayKey31"
  let ?s1 = "snd (getTbLoaderList ?s)"
  let ?s3 = "snd (processTbLoader sourceKey ?s1)"
  have a: "fst (getTbLoaderList ?s) = Inr ([] @ sourceKey # [])" by code_simp
  have b: "processTbLoaderList [] ?s1 = (Inr [], ?s1)"
    by (simp add: processTbLoaderList_def walk_Nil)
  have c: "fst (processTbLoader sourceKey ?s1) = Inl (Error ''SlowDown'')" by code_simp
  have a': "getTbLoaderList ?s = (Inr ([] @ sourceKey # []), ?s1)"
    using a by (simp add: prod_eq_iff)
  have c': "processTbLoader sourceKey ?s1 = (Inl (Error ''SlowDown''), ?s3)"
    using c by (simp add: prod_eq_iff)
  from handler_reports [THEN conjunct2, of ?s "[]" sourceKey "[]" ?s1 "[]" ?s1 "Error ''SlowDown''" ?s3]
    a' b c'
  have "handler ?s = ((Some (Error ''SlowDown''), None), ?s3)" by blast
  then show ?thesis by simp
qed

text \<open>
  A run that merges one day reports the list \<open>[0]\<close>, not the group it processed; a run
  whose second day fails to be written after the first day was written reports the
  error and no list.
\<close>

theorem handler_result_counterexample:
  "fst (handler (store (listingOf [keyA, keyB3])
          [keyA \<mapsto> Ascii ''hello'', keyB3 \<mapsto> Ascii (''world'' @ [CHR 0x0A])])) = (None, Some [0]) \<and>
   fst (consolidateDailyLogs (partitionByDays [keyA, keyB3])
          ((store (listingOf [keyA, keyB3])
              [keyA \<mapsto> Ascii ''hello'', keyB3 \<mapsto> Ascii (''world'' @ [CHR 0x0A])])
           \<lparr>requests := [ListObjectsV2 ''log/'', ListObjectsV2 sourceKey]\<rparr>))
     = Inr [day30\<lparr>log := Str (''hello'' @ [CHR 0x0A] @ ''world'' @ [CHR 0x0A]), priorLog := Str ''''\<rparr>] \<and>
   fst (handler (storeFailingPut [keyA, keyC] [keyA \<mapsto> Ascii ''hello'', keyC \<mapsto> Ascii ''later''] dayKey31))
     = (Some (Error ''SlowDown''), None) \<and>
   putRequests (requests (snd (handler
       (storeFailingPut [keyA, keyC] [keyA \<mapsto> Ascii ''hello'', keyC \<mapsto> Ascii ''later''] dayKey31))))
     = [(dayKey, ''hello'' @ [CHR 0x0A]), (dayKey31, ''later'' @ [CHR 0x0A])]"
  by code_simp


text \<open>
  Claim C1 at a failing input. The source lists the fragment \<open>keyA\<close> and the key
  \<open>keyNotes\<close>, which fails the test of the partitioner. The partitioner puts \<open>keyNotes\<close>
  in no group and the run merges \<open>keyA\<close> alone, but the delete request names both keys,
  and the object at \<open>keyNotes\<close> is gone after the run.
\<close>

theorem unmatched_key_is_deleted:
  "\<not> matchesName keyNotes \<and>
   partitionByDays [keyA, keyNotes] = [day30A] \<and>
   objects (store (listingOf [keyA, keyNotes])
              [keyA \<mapsto> Ascii ''hello'', keyNotes \<mapsto> Ascii ''keep'']) keyNotes = Some (Ascii ''keep'') \<and>
   requests (snd (handler (store (listingOf [keyA, keyNotes])
              [keyA \<mapsto> Ascii ''hello'', keyNotes \<mapsto> Ascii ''keep''])))
     = [ListObjectsV2 ''log/'', ListObjectsV2 sourceKey, GetObject keyA, GetObject dayKey,
        PutObject dayKey (''hello'' @ [CHR 0x0A]), DeleteObjects [keyA, keyNotes]] \<and>
   objects (snd (handler (store (listingOf [keyA, keyNotes])
              [keyA \<mapsto> Ascii ''hello'', keyNotes \<mapsto> Ascii ''keep'']))) keyNotes = None"
  by code_simp

text \<open>
  The scenario of claim C2 as the spec states it: the second key has no fraction after
  its time of day and fails the test of the partitioner, so the run writes the first
  fragment alone.
\<close>

theorem key_without_fraction_counterexample:
  "\<not> matchesName keyB \<and>
   putRequests (requests (snd (handler (store (listingOf [keyA, keyB])
              [keyA \<mapsto> Ascii ''hello'', keyB \<mapsto> Ascii (''world'' @ [CHR 0x0A])]))))
     = [(dayKey, ''hello'' @ [CHR 0x0A])]"
  by code_simp

text \<open>
  Claim C2, as amended. With the second fragment named
  \<^verbatim>\<open>log/tbcd1234/20210730T140000.000Z.log\<close>, both keys pass the test of the
  partitioner and form one group for the key \<^verbatim>\<open>log/2021/07/tbcd1234-30.log\<close>; the run
  reads both fragments and the absent prior artifact, writes \<^verbatim>\<open>hello\<close>, a newline,
  \<^verbatim>\<open>world\<close> and a newline to that key, and then deletes both fragment keys.
\<close>

theorem two_fragments_scenario:
  "matchesName keyA \<and> matchesName keyB3 \<and>
   partitionByDays [keyA, keyB3] = [day30] \<and>
   dayKey = ''log/2021/07/tbcd1234-30.log'' \<and>
   requests (snd (handler (store (listingOf [keyA, keyB3])
              [keyA \<mapsto> Ascii ''hello'', keyB3 \<mapsto> Ascii (''world'' @ [CHR 0x0A])])))
     = [ListObjectsV2 ''log/'', ListObjectsV2 sourceKey, GetObject keyA, GetObject keyB3,
        GetObject dayKey, PutObject dayKey (''hello'' @ [CHR 0x0A] @ ''world'' @ [CHR 0x0A]),
        DeleteObjects [keyA, keyB3]] \<and>
   fst (handler (store (listingOf [keyA, keyB3])
              [keyA \<mapsto> Ascii ''hello'', keyB3 \<mapsto> Ascii (''world'' @ [CHR 0x0A])])) = (None, Some [0])"
  by code_simp

end
